theory Spec2Isabelle
  imports Main "HOL-Library.AList" "HOL-Library.Extended_Nat"
begin

section \<open>The crossword generator of \<^verbatim>\<open>crossword/generate.py\<close>\<close>

text \<open>
  A shallow embedding of the class \<^verbatim>\<open>CrosswordCreator\<close>: node consistency, \<^verbatim>\<open>revise\<close>,
  \<^verbatim>\<open>ac3\<close>, the two ordering heuristics and the backtracking search.

  Conventions of the embedding.
  \<^item> A Python \<^verbatim>\<open>dict\<close> is an association list in insertion order: subscription is
    \<^const>\<open>map_of\<close> (a missing key raises \<^verbatim>\<open>KeyError\<close>), assignment to a key is
    \<^const>\<open>AList.update\<close> (an existing key keeps its place, a new one goes to the end),
    the keys are \<open>map fst\<close>.
  \<^item> A Python \<^verbatim>\<open>set\<close> of words is the list of its elements in iteration order;
    \<^verbatim>\<open>difference\<close> keeps the survivors in their order and \<^verbatim>\<open>len\<close> is the length of
    the list. Properties of domains are stated on \<^const>\<open>set\<close> of these lists.
  \<^item> Whatever the source mutates (\<^verbatim>\<open>self.domains\<close>, the \<^verbatim>\<open>assignment\<close> dictionary) is
    passed in and returned.
  \<^item> An exception is the left summand of the result.
\<close>

subsection \<open>Data\<close>

datatype direction = ACROSS | DOWN

text \<open>
  Modelled from the spec: the classes \<^verbatim>\<open>Variable\<close> and \<^verbatim>\<open>Crossword\<close> live in
  \<^verbatim>\<open>crossword.py\<close>, which \<^verbatim>\<open>generate.py\<close> imports. A variable is a start row and
  column, a direction and a length. Of the puzzle the solver reads the variables, the
  word list, the overlap table (for a pair of variables either nothing or the two
  character positions that must match) and \<^verbatim>\<open>neighbors\<close>; these four are parameters.
\<close>

record variable =
  var_i :: nat
  var_j :: nat
  var_direction :: direction
  var_length :: nat

record crossword =
  variables :: "variable list"
  words :: "string list"
  overlaps :: "variable \<times> variable \<Rightarrow> (nat \<times> nat) option"
  neighbors :: "variable \<Rightarrow> variable list"

type_synonym domains = "(variable \<times> string list) list"
type_synonym assignment = "(variable \<times> string) list"
type_synonym arc = "variable \<times> variable"

text \<open>
  The exceptions the solver can raise. \<open>OutOfFuel\<close> is not a Python exception: it is
  what \<open>backtrack\<close> answers when the recursion depth it was given is used up.
\<close>

datatype error = KeyError | IndexError | UnboundLocalError | OutOfFuel

subsection \<open>Python primitives\<close>

text \<open>\<^verbatim>\<open>d[k]\<close> on a dictionary.\<close>

definition lookup :: "('k \<times> 'v) list \<Rightarrow> 'k \<Rightarrow> error + 'v" where
  "lookup d k = (case map_of d k of None \<Rightarrow> Inl KeyError | Some v \<Rightarrow> Inr v)"

text \<open>\<^verbatim>\<open>k in d\<close> on a dictionary.\<close>

definition has_key :: "('k \<times> 'v) list \<Rightarrow> 'k \<Rightarrow> bool" where
  "has_key d k = (k \<in> set (map fst d))"

text \<open>\<^verbatim>\<open>d.pop(k)\<close>, of which the solver uses the effect only.\<close>

definition pop :: "'k \<Rightarrow> ('k \<times> 'v) list \<Rightarrow> error + ('k \<times> 'v) list" where
  "pop k d = (if has_key d k then Inr (AList.delete k d) else Inl KeyError)"

text \<open>\<^verbatim>\<open>s[n]\<close> on a string, for an index that is not negative.\<close>

definition getitem :: "'a list \<Rightarrow> nat \<Rightarrow> error + 'a" where
  "getitem s n = (if n < length s then Inr (s ! n) else Inl IndexError)"

text \<open>\<^verbatim>\<open>s.difference(t)\<close> on sets.\<close>

definition difference :: "'a list \<Rightarrow> 'a list \<Rightarrow> 'a list" where
  "difference s t = filter (\<lambda>a. a \<notin> set t) s"

subsection \<open>\<^verbatim>\<open>__init__\<close> and \<^verbatim>\<open>enforce_node_consistency\<close>\<close>

definition init_domains :: "crossword \<Rightarrow> domains" where
  "init_domains cw = map (\<lambda>var. (var, words cw)) (variables cw)"

text \<open>The body of the loop over the keys of \<^verbatim>\<open>self.domains\<close>, and the loop.\<close>

fun enforce_loop :: "variable list \<Rightarrow> domains \<Rightarrow> error + domains" where
  "enforce_loop [] doms = Inr doms"
| "enforce_loop (var # vars) doms =
     (case lookup doms var of
        Inl e \<Rightarrow> Inl e
      | Inr ws \<Rightarrow>
          (let inconsistent = filter (\<lambda>word. var_length var \<noteq> length word) ws
           in enforce_loop vars (AList.update var (difference ws inconsistent) doms)))"

definition enforce_node_consistency :: "domains \<Rightarrow> error + domains" where
  "enforce_node_consistency doms = enforce_loop (map fst doms) doms"

subsection \<open>\<^verbatim>\<open>revise\<close>\<close>

text \<open>
  The inner function \<^verbatim>\<open>check\<close>: the loop over the words of \<^verbatim>\<open>self.domains[y]\<close>. The
  character of \<^verbatim>\<open>word\<close> is read before the character of \<^verbatim>\<open>w\<close>, once per iteration.
\<close>

fun check_loop :: "nat \<Rightarrow> nat \<Rightarrow> string \<Rightarrow> string list \<Rightarrow> error + bool" where
  "check_loop no_x no_y word [] = Inr False"
| "check_loop no_x no_y word (w # ws) =
     (case getitem word no_x of
        Inl e \<Rightarrow> Inl e
      | Inr a \<Rightarrow>
          (case getitem w no_y of
             Inl e \<Rightarrow> Inl e
           | Inr b \<Rightarrow> if a = b then Inr True else check_loop no_x no_y word ws))"

definition check :: "domains \<Rightarrow> variable \<Rightarrow> nat \<times> nat \<Rightarrow> string \<Rightarrow> error + bool" where
  "check doms y shared_xy word =
     (case lookup doms y of
        Inl e \<Rightarrow> Inl e
      | Inr dy \<Rightarrow> check_loop (fst shared_xy) (snd shared_xy) word dy)"

text \<open>The loop that collects the words of \<^verbatim>\<open>self.domains[x]\<close> that fail \<^verbatim>\<open>check\<close>.\<close>

fun revise_loop :: "domains \<Rightarrow> variable \<Rightarrow> nat \<times> nat \<Rightarrow> string list \<Rightarrow> error + string list" where
  "revise_loop doms y shared_xy [] = Inr []"
| "revise_loop doms y shared_xy (word # rest) =
     (case check doms y shared_xy word of
        Inl e \<Rightarrow> Inl e
      | Inr ok \<Rightarrow>
          (case revise_loop doms y shared_xy rest of
             Inl e \<Rightarrow> Inl e
           | Inr inconsistent \<Rightarrow> Inr (if ok then inconsistent else word # inconsistent)))"

definition revise :: "crossword \<Rightarrow> variable \<Rightarrow> variable \<Rightarrow> domains \<Rightarrow> error + (bool \<times> domains)" where
  "revise cw x y doms =
     (case overlaps cw (x, y) of
        None \<Rightarrow> Inr (False, doms)
      | Some shared_xy \<Rightarrow>
          (case lookup doms x of
             Inl e \<Rightarrow> Inl e
           | Inr dx \<Rightarrow>
               (case revise_loop doms y shared_xy dx of
                  Inl e \<Rightarrow> Inl e
                | Inr inconsistent \<Rightarrow>
                    if inconsistent \<noteq> []
                    then Inr (True, AList.update x (difference dx inconsistent) doms)
                    else Inr (False, doms))))"

subsection \<open>\<^verbatim>\<open>ac3\<close>\<close>

text \<open>The initial queue: every ordered pair of different entries of \<^verbatim>\<open>arcs\<close>.\<close>

definition initial_queue :: "variable list \<Rightarrow> arc list" where
  "initial_queue arcs = concat (map (\<lambda>x. map (\<lambda>y. (x, y)) (filter (\<lambda>y. x \<noteq> y) arcs)) arcs)"

text \<open>
  One iteration of \<^verbatim>\<open>for (x, y) in queue\<close>. The answer is the domain store after
  \<^verbatim>\<open>revise\<close> together with either \<open>None\<close>, when the iteration executes
  \<^verbatim>\<open>return False\<close>, or the arcs it appends to the queue.
\<close>

definition ac3_body :: "crossword \<Rightarrow> variable \<Rightarrow> variable \<Rightarrow> domains \<Rightarrow> error + (arc list option \<times> domains)" where
  "ac3_body cw x y doms =
     (case revise cw x y doms of
        Inl e \<Rightarrow> Inl e
      | Inr (revised, doms') \<Rightarrow>
          if revised then
            (case lookup doms' x of
               Inl e \<Rightarrow> Inl e
             | Inr dx \<Rightarrow>
                 if length dx = 0 then Inr (None, doms')
                 else Inr (Some (map (\<lambda>neighbor. (neighbor, x)) (neighbors cw x)), doms'))
          else Inr (Some [], doms'))"

text \<open>The size of the domain store: the loop of \<^verbatim>\<open>ac3\<close> ends because it shrinks.\<close>

definition store_size :: "domains \<Rightarrow> nat" where
  "store_size doms = sum_list (map (\<lambda>kv. length (snd kv)) doms)"

lemma store_size_update:
  "map_of doms x = Some dx \<Longrightarrow> length new < length dx \<Longrightarrow>
   store_size (AList.update x new doms) < store_size doms"
  by (induction doms) (auto simp: store_size_def split: if_splits)

lemma length_difference_less:
  "inc \<noteq> [] \<Longrightarrow> set inc \<subseteq> set dx \<Longrightarrow> length (difference dx inc) < length dx"
proof -
  assume ne: "inc \<noteq> []" and sub: "set inc \<subseteq> set dx"
  then obtain a where a: "a \<in> set inc" "a \<in> set dx" by (cases inc) auto
  then have "\<not> (\<lambda>w. w \<notin> set inc) a" by simp
  with a(2) have "length (filter (\<lambda>w. w \<notin> set inc) dx) < length dx"
    by (rule length_filter_less)
  then show ?thesis by (simp add: difference_def)
qed

lemma revise_loop_subset:
  "revise_loop doms y s dx = Inr inc \<Longrightarrow> set inc \<subseteq> set dx"
  by (induction dx arbitrary: inc) (auto split: sum.splits if_splits)

lemma revise_shrinks:
  "revise cw x y doms = Inr (True, doms') \<Longrightarrow> store_size doms' < store_size doms"
  by (auto simp: revise_def lookup_def split: option.splits sum.splits if_splits
      intro!: store_size_update length_difference_less dest: revise_loop_subset)

lemma revise_unchanged:
  "revise cw x y doms = Inr (False, doms') \<Longrightarrow> doms' = doms"
  by (auto simp: revise_def split: option.splits sum.splits if_splits)

lemma ac3_body_measure:
  "ac3_body cw x y doms = Inr (Some new, doms') \<Longrightarrow>
   store_size doms' < store_size doms \<or> (doms' = doms \<and> new = [])"
  by (auto simp: ac3_body_def split: sum.splits if_splits dest: revise_shrinks revise_unchanged)

text \<open>
  The loop \<^verbatim>\<open>for (x, y) in queue\<close>, whose body appends to \<^verbatim>\<open>queue\<close>: the list iterator
  reaches the appended arcs too, so the loop runs on the arcs not yet visited followed
  by the appended ones.
\<close>

function ac3_loop :: "crossword \<Rightarrow> arc list \<Rightarrow> domains \<Rightarrow> error + (bool \<times> domains)" where
  "ac3_loop cw [] doms = Inr (True, doms)"
| "ac3_loop cw ((x, y) # queue) doms =
     (case ac3_body cw x y doms of
        Inl e \<Rightarrow> Inl e
      | Inr (None, doms') \<Rightarrow> Inr (False, doms')
      | Inr (Some new, doms') \<Rightarrow> ac3_loop cw (queue @ new) doms')"
  by pat_completeness auto
termination
proof (relation "inv_image (less_than <*lex*> less_than)
                  (\<lambda>(cw, queue, doms). (store_size doms, length queue))", goal_cases)
  case 1
  show ?case by (intro wf_inv_image wf_lex_prod wf_less_than)
next
  case (2 cw x y queue doms r opt doms' new)
  then have "ac3_body cw x y doms = Inr (Some new, doms')" by simp
  from ac3_body_measure [OF this] show ?case by auto
qed

definition ac3 :: "crossword \<Rightarrow> variable list option \<Rightarrow> domains \<Rightarrow> error + (bool \<times> domains)" where
  "ac3 cw arcs doms =
     (let arcs' = (case arcs of None \<Rightarrow> map fst doms | Some a \<Rightarrow> a)
      in ac3_loop cw (initial_queue arcs') doms)"

subsection \<open>\<^verbatim>\<open>assignment_complete\<close> and \<^verbatim>\<open>consistent\<close>\<close>

fun complete_loop :: "assignment \<Rightarrow> variable list \<Rightarrow> bool" where
  "complete_loop asg [] = True"
| "complete_loop asg (var # vars) = (if \<not> has_key asg var then False else complete_loop asg vars)"

definition assignment_complete :: "domains \<Rightarrow> assignment \<Rightarrow> bool" where
  "assignment_complete doms asg = complete_loop asg (map fst doms)"

text \<open>
  The three parts of the body of \<^verbatim>\<open>for var in assignment\<close>. Each loop answers
  \<open>Inr False\<close> where the source executes \<^verbatim>\<open>return False\<close> and \<open>Inr True\<close> where it
  runs to its end.
\<close>

fun distinct_loop :: "assignment \<Rightarrow> variable \<Rightarrow> variable list \<Rightarrow> error + bool" where
  "distinct_loop asg var [] = Inr True"
| "distinct_loop asg var (v # vs) =
     (if v = var then distinct_loop asg var vs
      else
        (case lookup asg var of
           Inl e \<Rightarrow> Inl e
         | Inr a \<Rightarrow>
             (case lookup asg v of
                Inl e \<Rightarrow> Inl e
              | Inr b \<Rightarrow> if a = b then Inr False else distinct_loop asg var vs)))"

fun neighbor_loop :: "crossword \<Rightarrow> assignment \<Rightarrow> variable \<Rightarrow> variable list \<Rightarrow> error + bool" where
  "neighbor_loop cw asg var [] = Inr True"
| "neighbor_loop cw asg var (neighbor # rest) =
     (case overlaps cw (var, neighbor) of
        None \<Rightarrow> neighbor_loop cw asg var rest
      | Some shared \<Rightarrow>
          if has_key asg neighbor then
            (case lookup asg var of
               Inl e \<Rightarrow> Inl e
             | Inr word \<Rightarrow>
                 (case lookup asg neighbor of
                    Inl e \<Rightarrow> Inl e
                  | Inr neigbour_word \<Rightarrow>
                      (case getitem word (fst shared) of
                         Inl e \<Rightarrow> Inl e
                       | Inr a \<Rightarrow>
                           (case getitem neigbour_word (snd shared) of
                              Inl e \<Rightarrow> Inl e
                            | Inr b \<Rightarrow>
                                if a \<noteq> b then Inr False
                                else neighbor_loop cw asg var rest))))
          else neighbor_loop cw asg var rest)"

fun consistent_loop :: "crossword \<Rightarrow> assignment \<Rightarrow> variable list \<Rightarrow> error + bool" where
  "consistent_loop cw asg [] = Inr True"
| "consistent_loop cw asg (var # vars) =
     (case lookup asg var of
        Inl e \<Rightarrow> Inl e
      | Inr word \<Rightarrow>
          if length word \<noteq> var_length var then Inr False
          else
            (case distinct_loop asg var (map fst asg) of
               Inl e \<Rightarrow> Inl e
             | Inr distinct_ok \<Rightarrow>
                 if \<not> distinct_ok then Inr False
                 else
                   (case neighbor_loop cw asg var (neighbors cw var) of
                      Inl e \<Rightarrow> Inl e
                    | Inr neighbors_ok \<Rightarrow>
                        if \<not> neighbors_ok then Inr False
                        else consistent_loop cw asg vars)))"

definition consistent :: "crossword \<Rightarrow> assignment \<Rightarrow> error + bool" where
  "consistent cw asg = consistent_loop cw asg (map fst asg)"

subsection \<open>\<^verbatim>\<open>order_domain_values\<close>\<close>

text \<open>The loop over the words of a neighbor's domain; \<open>n\<close> is the running count.\<close>

fun count_loop :: "nat \<Rightarrow> nat \<Rightarrow> string \<Rightarrow> string list \<Rightarrow> nat \<Rightarrow> error + nat" where
  "count_loop no_var no_neighbor word [] n = Inr n"
| "count_loop no_var no_neighbor word (w # ws) n =
     (case getitem word no_var of
        Inl e \<Rightarrow> Inl e
      | Inr a \<Rightarrow>
          (case getitem w no_neighbor of
             Inl e \<Rightarrow> Inl e
           | Inr b \<Rightarrow> count_loop no_var no_neighbor word ws (if a \<noteq> b then n + 1 else n)))"

fun neighbors_count ::
  "crossword \<Rightarrow> domains \<Rightarrow> assignment \<Rightarrow> variable \<Rightarrow> string \<Rightarrow> variable list \<Rightarrow> nat \<Rightarrow> error + nat" where
  "neighbors_count cw doms asg var word [] n = Inr n"
| "neighbors_count cw doms asg var word (neighbor # rest) n =
     (if neighbor \<in> set (map fst asg) then neighbors_count cw doms asg var word rest n
      else
        (case overlaps cw (var, neighbor) of
           None \<Rightarrow> neighbors_count cw doms asg var word rest n
         | Some shared \<Rightarrow>
             (case lookup doms neighbor of
                Inl e \<Rightarrow> Inl e
              | Inr dn \<Rightarrow>
                  (case count_loop (fst shared) (snd shared) word dn n of
                     Inl e \<Rightarrow> Inl e
                   | Inr n' \<Rightarrow> neighbors_count cw doms asg var word rest n'))))"

fun order_loop ::
  "crossword \<Rightarrow> domains \<Rightarrow> assignment \<Rightarrow> variable \<Rightarrow> string list \<Rightarrow> (string \<times> nat) list
   \<Rightarrow> error + (string \<times> nat) list" where
  "order_loop cw doms asg var [] order = Inr order"
| "order_loop cw doms asg var (word # rest) order =
     (if word \<in> set (map snd asg) then order_loop cw doms asg var rest order
      else
        (case neighbors_count cw doms asg var word (neighbors cw var) 0 of
           Inl e \<Rightarrow> Inl e
         | Inr n \<Rightarrow> order_loop cw doms asg var rest (AList.update word n order)))"

text \<open>
  \<^verbatim>\<open>sorted(order, key=lambda key: order[key])\<close> is a stable sort of the keys of the
  dictionary by their values, as \<^const>\<open>sort_key\<close> is on the entries.
\<close>

definition sorted_keys :: "('k \<times> nat) list \<Rightarrow> 'k list" where
  "sorted_keys order = map fst (sort_key snd order)"

definition order_domain_values ::
  "crossword \<Rightarrow> domains \<Rightarrow> variable \<Rightarrow> assignment \<Rightarrow> error + string list" where
  "order_domain_values cw doms var asg =
     (case lookup doms var of
        Inl e \<Rightarrow> Inl e
      | Inr dv \<Rightarrow>
          (case order_loop cw doms asg var dv [] of
             Inl e \<Rightarrow> Inl e
           | Inr order \<Rightarrow> Inr (sorted_keys order)))"

subsection \<open>\<^verbatim>\<open>select_unassigned_variable\<close>\<close>

text \<open>
  The loop over the keys of \<^verbatim>\<open>self.domains\<close>. Its state is \<^verbatim>\<open>lowest\<close>, which starts at
  \<^verbatim>\<open>math.inf\<close>, and the dictionary \<^verbatim>\<open>order\<close>, which is unbound (\<open>None\<close>) until the first
  unassigned variable is met.
\<close>

fun select_loop ::
  "crossword \<Rightarrow> domains \<Rightarrow> assignment \<Rightarrow> variable list \<Rightarrow> enat \<Rightarrow> (variable \<times> nat) list option
   \<Rightarrow> error + (enat \<times> (variable \<times> nat) list option)" where
  "select_loop cw doms asg [] lowest order = Inr (lowest, order)"
| "select_loop cw doms asg (var # vars) lowest order =
     (if has_key asg var then select_loop cw doms asg vars lowest order
      else
        (case lookup doms var of
           Inl e \<Rightarrow> Inl e
         | Inr dv \<Rightarrow>
             if enat (length dv) < lowest then
               select_loop cw doms asg vars (enat (length dv))
                 (Some [(var, length (neighbors cw var))])
             else if enat (length dv) = lowest then
               (case order of
                  None \<Rightarrow> Inl UnboundLocalError
                | Some ord \<Rightarrow>
                    select_loop cw doms asg vars lowest
                      (Some (AList.update var (length (neighbors cw var)) ord)))
             else select_loop cw doms asg vars lowest order))"

definition select_unassigned_variable ::
  "crossword \<Rightarrow> domains \<Rightarrow> assignment \<Rightarrow> error + variable" where
  "select_unassigned_variable cw doms asg =
     (case select_loop cw doms asg (map fst doms) \<infinity> None of
        Inl e \<Rightarrow> Inl e
      | Inr (lowest, None) \<Rightarrow> Inl UnboundLocalError
      | Inr (lowest, Some order) \<Rightarrow> getitem (sorted_keys order) 0)"

subsection \<open>\<^verbatim>\<open>backtrack\<close> and \<^verbatim>\<open>solve\<close>\<close>

text \<open>
  The search returns what the source returns (\<open>Some\<close> of the assignment, or \<open>None\<close>)
  together with the domain store and the assignment dictionary as the call leaves
  them. \<open>branch\<close> is the body of \<^verbatim>\<open>for value in ...\<close>: it answers \<open>Some\<close> where the source
  returns the result, and \<open>None\<close> where it goes on to the next value; \<open>try_values\<close> is
  the loop. Both take the recursive call \<^verbatim>\<open>self.backtrack\<close> as their first argument.
  The first argument of \<open>backtrack\<close> bounds the depth of the recursion.
\<close>

type_synonym search = "error + (assignment option \<times> domains \<times> assignment)"

definition branch ::
  "(domains \<Rightarrow> assignment \<Rightarrow> search) \<Rightarrow> crossword \<Rightarrow> variable \<Rightarrow> string \<Rightarrow> domains \<Rightarrow> assignment
   \<Rightarrow> search" where
  "branch recur cw var val doms asg =
     (let asg1 = AList.update var val asg in
      case consistent cw asg1 of
        Inl e \<Rightarrow> Inl e
      | Inr ok \<Rightarrow>
          if \<not> ok then
            (case pop var asg1 of Inl e \<Rightarrow> Inl e | Inr asg2 \<Rightarrow> Inr (None, doms, asg2))
          else
            (case ac3 cw None doms of
               Inl e \<Rightarrow> Inl e
             | Inr (arc_ok, doms1) \<Rightarrow>
                 if \<not> arc_ok then
                   (case pop var asg1 of Inl e \<Rightarrow> Inl e | Inr asg2 \<Rightarrow> Inr (None, doms1, asg2))
                 else
                   (case recur doms1 asg1 of
                      Inl e \<Rightarrow> Inl e
                    | Inr (Some result, doms2, asg2) \<Rightarrow> Inr (Some result, doms2, asg2)
                    | Inr (None, doms2, asg2) \<Rightarrow>
                        (case pop var asg2 of
                           Inl e \<Rightarrow> Inl e
                         | Inr asg3 \<Rightarrow> Inr (None, doms2, asg3)))))"

fun try_values ::
  "(domains \<Rightarrow> assignment \<Rightarrow> search) \<Rightarrow> crossword \<Rightarrow> variable \<Rightarrow> string list \<Rightarrow> domains \<Rightarrow> assignment
   \<Rightarrow> search" where
  "try_values recur cw var [] doms asg = Inr (None, doms, asg)"
| "try_values recur cw var (val # vals) doms asg =
     (case branch recur cw var val doms asg of
        Inl e \<Rightarrow> Inl e
      | Inr (Some result, doms', asg') \<Rightarrow> Inr (Some result, doms', asg')
      | Inr (None, doms', asg') \<Rightarrow> try_values recur cw var vals doms' asg')"

fun backtrack :: "nat \<Rightarrow> crossword \<Rightarrow> domains \<Rightarrow> assignment \<Rightarrow> search" where
  "backtrack 0 cw doms asg = Inl OutOfFuel"
| "backtrack (Suc fuel) cw doms asg =
     (if assignment_complete doms asg then Inr (Some asg, doms, asg)
      else
        (case select_unassigned_variable cw doms asg of
           Inl e \<Rightarrow> Inl e
         | Inr var \<Rightarrow>
             (case order_domain_values cw doms var asg of
                Inl e \<Rightarrow> Inl e
              | Inr vals \<Rightarrow> try_values (backtrack fuel cw) cw var vals doms asg)))"


subsection \<open>Vocabulary of the properties\<close>

text \<open>
  Two words agree at an overlap when both positions exist and hold the same character;
  a word of \<open>x\<close> is supported by the domain of \<open>y\<close> when it agrees with one of its words.
\<close>

definition agrees :: "nat \<times> nat \<Rightarrow> string \<Rightarrow> string \<Rightarrow> bool" where
  "agrees shared w w' =
     (fst shared < length w \<and> snd shared < length w' \<and> w ! fst shared = w' ! snd shared)"

definition supported :: "nat \<times> nat \<Rightarrow> string list \<Rightarrow> string \<Rightarrow> bool" where
  "supported shared dy w = (\<exists>w' \<in> set dy. agrees shared w w')"

text \<open>
  The domain of a variable in the store, empty for a variable that is not a key. An arc
  \<open>(x, y)\<close> is consistent when \<open>x\<close> and \<open>y\<close> do not overlap or every word of \<open>x\<close> is
  supported by the domain of \<open>y\<close>; the store is arc consistent when every arc between two
  different keys is. The puzzle model of \<^verbatim>\<open>crossword.py\<close> has a symmetric overlap table
  (the same cell seen from either side) and lists among the neighbors of \<open>x\<close> every other
  variable that overlaps \<open>x\<close>; both are stated over the keys of the store.
  \<open>queue_invariant\<close> is the invariant of the loop of \<^verbatim>\<open>ac3\<close>.
\<close>

definition domain_of :: "domains \<Rightarrow> variable \<Rightarrow> string list" where
  "domain_of doms x = (case map_of doms x of None \<Rightarrow> [] | Some dx \<Rightarrow> dx)"

definition arc_ok :: "crossword \<Rightarrow> domains \<Rightarrow> variable \<Rightarrow> variable \<Rightarrow> bool" where
  "arc_ok cw doms x y =
     (case overlaps cw (x, y) of
        None \<Rightarrow> True
      | Some shared \<Rightarrow> \<forall>w \<in> set (domain_of doms x). supported shared (domain_of doms y) w)"

definition arc_consistent :: "crossword \<Rightarrow> domains \<Rightarrow> bool" where
  "arc_consistent cw doms =
     (\<forall>x \<in> set (map fst doms). \<forall>y \<in> set (map fst doms). x = y \<or> arc_ok cw doms x y)"

definition neighbors_cover :: "crossword \<Rightarrow> variable list \<Rightarrow> bool" where
  "neighbors_cover cw vars =
     (\<forall>x \<in> set vars. \<forall>a \<in> set vars.
        a = x \<or> overlaps cw (a, x) = None \<or> a \<in> set (neighbors cw x))"

definition queue_invariant :: "crossword \<Rightarrow> arc list \<Rightarrow> domains \<Rightarrow> bool" where
  "queue_invariant cw queue doms =
     (\<forall>x \<in> set (map fst doms). \<forall>y \<in> set (map fst doms).
        x = y \<or> (x, y) \<in> set queue \<or> arc_ok cw doms x y)"

definition overlaps_symmetric :: "crossword \<Rightarrow> variable list \<Rightarrow> bool" where
  "overlaps_symmetric cw vars =
     (\<forall>x \<in> set vars. \<forall>y \<in> set vars. overlaps cw (y, x) = map_option prod.swap (overlaps cw (x, y)))"

text \<open>
  The preconditions on lengths: every word of every domain, and every assigned word, has
  the length of its variable, and the overlap table only holds positions below the
  lengths of the two variables.
\<close>

definition node_consistent :: "domains \<Rightarrow> bool" where
  "node_consistent doms =
     (\<forall>v \<in> set (map fst doms). \<forall>w \<in> set (domain_of doms v). length w = var_length v)"

definition assignment_fits :: "assignment \<Rightarrow> bool" where
  "assignment_fits asg =
     (\<forall>v \<in> set (map fst asg).
        case map_of asg v of None \<Rightarrow> True | Some w \<Rightarrow> length w = var_length v)"

definition overlaps_in_range :: "crossword \<Rightarrow> bool" where
  "overlaps_in_range cw =
     (\<forall>x y. case overlaps cw (x, y) of
              None \<Rightarrow> True
            | Some shared \<Rightarrow> fst shared < var_length x \<and> snd shared < var_length y)"

text \<open>
  The search. \<open>unassigned\<close> lists the keys of the store without a word. An assignment is
  consistent, in the words of the data model, when every word has the length of its
  variable, the words of two different variables differ, and the words of two assigned
  neighbors agree at their overlap. \<open>neighbors_closed\<close> says that \<^verbatim>\<open>neighbors\<close> only
  answers variables of the store.

  \<open>good_search\<close>, \<open>total_search\<close> and \<open>stable_search\<close> are what the loop of \<^verbatim>\<open>backtrack\<close>
  needs from the recursive call: its answer, that it returns, and that it leaves an arc
  consistent store alone. \<open>branch_post\<close> is the answer of one iteration and \<open>select_inv\<close>
  the invariant of the loop of \<^verbatim>\<open>select_unassigned_variable\<close>.
\<close>

definition unassigned :: "domains \<Rightarrow> assignment \<Rightarrow> variable list" where
  "unassigned doms asg = filter (\<lambda>v. \<not> has_key asg v) (map fst doms)"


definition good_search ::
  "crossword \<Rightarrow> (domains \<Rightarrow> assignment \<Rightarrow> search) \<Rightarrow> bool" where
  "good_search cw recur =
     (\<forall>d a res d2 a2. recur d a = Inr (res, d2, a2) \<longrightarrow>
        map fst d2 = map fst d \<and>
        (case res of
           None \<Rightarrow> a2 = a
         | Some r \<Rightarrow> r = a2 \<and> assignment_complete d r \<and>
             (if assignment_complete d a then r = a else consistent cw r = Inr True)))"

definition neighbors_closed :: "crossword \<Rightarrow> variable list \<Rightarrow> bool" where
  "neighbors_closed cw vars = (\<forall>x \<in> set vars. set (neighbors cw x) \<subseteq> set vars)"

definition total_search ::
  "variable list \<Rightarrow> nat \<Rightarrow> (domains \<Rightarrow> assignment \<Rightarrow> search) \<Rightarrow> bool" where
  "total_search keys n recur =
     (\<forall>d a. node_consistent d \<and> map fst d = keys \<and> assignment_fits a \<and>
        length (unassigned d a) < n \<longrightarrow>
        (\<exists>res d2 a2. recur d a = Inr (res, d2, a2) \<and> node_consistent d2))"


definition select_inv :: "domains \<Rightarrow> assignment \<Rightarrow> enat \<Rightarrow> (variable \<times> nat) list option \<Rightarrow> bool" where
  "select_inv doms asg lowest order =
     (case order of
        None \<Rightarrow> lowest = \<infinity>
      | Some ord \<Rightarrow> ord \<noteq> [] \<and> (\<forall>v \<in> set (map fst ord). v \<in> set (map fst doms) \<and> \<not> has_key asg v))"

definition branch_post ::
  "crossword \<Rightarrow> domains \<Rightarrow> assignment \<Rightarrow> assignment option \<times> domains \<times> assignment \<Rightarrow> bool" where
  "branch_post cw doms asg out =
     (case out of (res, d2, a2) \<Rightarrow>
        map fst d2 = map fst doms \<and>
        (case res of
           None \<Rightarrow> a2 = asg
         | Some r \<Rightarrow> r = a2 \<and> assignment_complete doms r \<and> consistent cw r = Inr True))"

subsection \<open>Three small puzzles\<close>

text \<open>
  A grid of three rows and three columns whose open cells are the top row and the left
  and right columns: \<open>v1\<close> runs across the top, \<open>v2\<close> down the left, \<open>v3\<close> down the
  right. \<open>cw1\<close> is the puzzle of \<open>v1\<close> alone, with no word of its length, \<open>cw2\<close> the
  puzzle of \<open>v1\<close> and \<open>v2\<close>, \<open>cw3\<close> the puzzle of all three.
\<close>

definition v1 :: variable where
  "v1 = \<lparr>var_i = 0, var_j = 0, var_direction = ACROSS, var_length = 3\<rparr>"

definition v2 :: variable where
  "v2 = \<lparr>var_i = 0, var_j = 0, var_direction = DOWN, var_length = 3\<rparr>"

definition v3 :: variable where
  "v3 = \<lparr>var_i = 0, var_j = 2, var_direction = DOWN, var_length = 3\<rparr>"

definition cw1 :: crossword where
  "cw1 = \<lparr>variables = [v1], words = [''to'', ''be''],
     overlaps = (\<lambda>p. None), neighbors = (\<lambda>v. [])\<rparr>"

definition cw2 :: crossword where
  "cw2 = \<lparr>variables = [v1, v2], words = [''cat'', ''cow'', ''dog''],
     overlaps = (\<lambda>p. if p = (v1, v2) \<or> p = (v2, v1) then Some (0, 0) else None),
     neighbors = (\<lambda>v. if v = v1 then [v2] else if v = v2 then [v1] else [])\<rparr>"

definition cw3 :: crossword where
  "cw3 = \<lparr>variables = [v1, v2, v3], words = [''cat'', ''cow'', ''dog'', ''tip''],
     overlaps = (\<lambda>p. if p = (v1, v2) \<or> p = (v2, v1) then Some (0, 0)
                    else if p = (v1, v3) then Some (2, 0)
                    else if p = (v3, v1) then Some (0, 2) else None),
     neighbors = (\<lambda>v. if v = v1 then [v2, v3] else if v = v2 \<or> v = v3 then [v1] else [])\<rparr>"

section \<open>Properties\<close>

subsection \<open>Facts about the small puzzles\<close>

lemma v_distinct [simp]: "v1 \<noteq> v2" "v2 \<noteq> v1" "v1 \<noteq> v3" "v3 \<noteq> v1" "v2 \<noteq> v3" "v3 \<noteq> v2"
  by (simp_all add: v1_def v2_def v3_def)

lemma v_length [simp]: "var_length v1 = 3" "var_length v2 = 3" "var_length v3 = 3"
  by (simp_all add: v1_def v2_def v3_def)

lemma cw2_overlaps [simp]:
  "overlaps cw2 (v1, v2) = Some (0, 0)" "overlaps cw2 (v2, v1) = Some (0, 0)"
  by (simp_all add: cw2_def)

lemma cw2_neighbors [simp]: "neighbors cw2 v1 = [v2]" "neighbors cw2 v2 = [v1]"
  by (simp_all add: cw2_def)

lemma cw1_simps [simp]:
  "variables cw1 = [v1]" "words cw1 = [''to'', ''be'']" "overlaps cw1 p = None" "neighbors cw1 v = []"
  by (simp_all add: cw1_def)

lemma cw3_overlaps [simp]:
  "overlaps cw3 (v1, v2) = Some (0, 0)" "overlaps cw3 (v2, v1) = Some (0, 0)"
  "overlaps cw3 (v1, v3) = Some (2, 0)" "overlaps cw3 (v3, v1) = Some (0, 2)"
  "overlaps cw3 (v2, v3) = None" "overlaps cw3 (v3, v2) = None"
  by (simp_all add: cw3_def)

lemma cw3_neighbors [simp]:
  "neighbors cw3 v1 = [v2, v3]" "neighbors cw3 v2 = [v1]" "neighbors cw3 v3 = [v1]"
  by (simp_all add: cw3_def)

lemma cw3_variables [simp]: "variables cw3 = [v1, v2, v3]" "words cw3 = [''cat'', ''cow'', ''dog'', ''tip'']"
  by (simp_all add: cw3_def)

lemma cw2_fields [simp]: "variables cw2 = [v1, v2]" "words cw2 = [''cat'', ''cow'', ''dog'']"
  by (simp_all add: cw2_def)

lemma cw2_closed: "neighbors_closed cw2 [v1, v2]"
  by (simp add: neighbors_closed_def)

subsection \<open>Dictionaries and sets\<close>

lemma lookup_Inr_iff: "lookup d k = Inr v \<longleftrightarrow> map_of d k = Some v"
  by (simp add: lookup_def split: option.splits)

lemma lookup_Inl_iff: "lookup d k = Inl e \<longleftrightarrow> map_of d k = None \<and> e = KeyError"
  by (auto simp: lookup_def split: option.splits)

lemma map_of_None_iff_keys: "map_of d k = None \<longleftrightarrow> k \<notin> set (map fst d)"
  by (simp add: map_of_eq_None_iff)

lemma update_keys_present: "k \<in> set (map fst d) \<Longrightarrow> map fst (AList.update k v d) = map fst d"
  by (simp add: update_keys)

lemma difference_filter: "difference ws (filter P ws) = filter (\<lambda>w. \<not> P w) ws"
  by (auto simp: difference_def intro: filter_cong)

lemma enforce_loop_spec:
  "set vars \<subseteq> set (map fst doms) \<Longrightarrow>
   \<exists>doms'. enforce_loop vars doms = Inr doms' \<and> map fst doms' = map fst doms \<and>
     (\<forall>v. map_of doms' v =
        (if v \<in> set vars then map_option (filter (\<lambda>w. length w = var_length v)) (map_of doms v)
         else map_of doms v))"
proof (induction vars arbitrary: doms)
  case Nil
  then show ?case by simp
next
  case (Cons var vars)
  from Cons.prems have "var \<in> set (map fst doms)" by simp
  then obtain ws where ws: "map_of doms var = Some ws"
    by (cases "map_of doms var") (auto simp: map_of_None_iff_keys)
  let ?F = "\<lambda>v. filter (\<lambda>w. length w = var_length v)"
  let ?d1 = "AList.update var (?F var ws) doms"
  have keys: "map fst ?d1 = map fst doms"
    using \<open>var \<in> set (map fst doms)\<close> by (rule update_keys_present)
  with Cons.prems have "set vars \<subseteq> set (map fst ?d1)" by simp
  from Cons.IH [OF this] obtain doms' where
    r: "enforce_loop vars ?d1 = Inr doms'" and k: "map fst doms' = map fst ?d1" and
    m: "\<forall>v. map_of doms' v = (if v \<in> set vars then map_option (?F v) (map_of ?d1 v) else map_of ?d1 v)"
    by blast
  have step: "enforce_loop (var # vars) doms = enforce_loop vars ?d1"
    using ws by (simp add: lookup_def difference_filter eq_commute [of "var_length var"])
  have "\<forall>v. map_of doms' v =
        (if v \<in> set (var # vars) then map_option (?F v) (map_of doms v) else map_of doms v)"
    using m ws by (auto simp: update_conv')
  with step r k keys show ?case by simp
qed

subsection \<open>Node consistency\<close>


lemma enforce_example: "enforce_node_consistency [(v1, [''cat'', ''ab'', ''hat'']), (v2, [''to''])]
     = Inr [(v1, [''cat'', ''hat'']), (v2, [])]"
  by (simp add: enforce_node_consistency_def lookup_def difference_def)

text \<open>
  C7. \<^verbatim>\<open>enforce_node_consistency\<close> raises nothing and returns no value: it leaves a new
  domain store. The store has the same keys, the domain of every variable is its old
  domain without the words whose length is not the length of the variable, and so every
  word that remains in a domain has exactly the length of its variable.
\<close>

theorem enforce_node_consistency_filters:
  "\<exists>doms'. enforce_node_consistency doms = Inr doms' \<and> map fst doms' = map fst doms \<and>
     (\<forall>v. map_of doms' v = map_option (filter (\<lambda>w. length w = var_length v)) (map_of doms v)) \<and>
     (\<forall>v ws. map_of doms' v = Some ws \<longrightarrow> (\<forall>w \<in> set ws. length w = var_length v))"
proof -
  from enforce_loop_spec [of "map fst doms" doms] obtain doms' where
    r: "enforce_loop (map fst doms) doms = Inr doms'" and k: "map fst doms' = map fst doms" and
    m: "\<forall>v. map_of doms' v =
        (if v \<in> set (map fst doms) then map_option (filter (\<lambda>w. length w = var_length v)) (map_of doms v)
         else map_of doms v)"
    by blast
  have m': "map_of doms' v = map_option (filter (\<lambda>w. length w = var_length v)) (map_of doms v)" for v
  proof (cases "map_of doms v")
    case None
    then show ?thesis using m [rule_format, of v] by (simp split: if_splits)
  next
    case (Some a)
    then have "v \<in> set (map fst doms)" by (auto dest: map_of_SomeD intro: rev_image_eqI)
    then show ?thesis using m [rule_format, of v] by simp
  qed
  have "length w = var_length v" if "map_of doms' v = Some ws" "w \<in> set ws" for v ws w
    using that m' [of v] by (cases "map_of doms v") auto
  with r k m' show ?thesis
    unfolding enforce_node_consistency_def by blast
qed



theorem enforce_node_consistency_filters_witness:
  "enforce_node_consistency [(v1, [''cat'', ''ab'', ''hat'']), (v2, [''to''])]
     = Inr [(v1, [''cat'', ''hat'']), (v2, [])] \<and>
   map_of [(v1, [''cat'', ''hat'']), (v2, [])] v1 = Some [''cat'', ''hat''] \<and>
   length ''cat'' = var_length v1 \<and> length ''hat'' = var_length v1"
proof -
  from enforce_node_consistency_filters [of "[(v1, [''cat'', ''ab'', ''hat'']), (v2, [''to''])]"]
  obtain doms' where
    r: "enforce_node_consistency [(v1, [''cat'', ''ab'', ''hat'']), (v2, [''to''])] = Inr doms'" and
    l: "\<forall>v ws. map_of doms' v = Some ws \<longrightarrow> (\<forall>w \<in> set ws. length w = var_length v)"
    by blast
  from r have d: "doms' = [(v1, [''cat'', ''hat'']), (v2, [])]" by (simp add: enforce_example)
  have m: "map_of [(v1, [''cat'', ''hat'']), (v2, [])] v1 = Some [''cat'', ''hat'']" by simp
  from l d m have "\<forall>w \<in> set [''cat'', ''hat'']. length w = var_length v1" by blast
  with m show ?thesis by (simp add: enforce_example)
qed

subsection \<open>\<^verbatim>\<open>revise\<close>\<close>

lemma check_loop_Inr:
  "check_loop n m w dy = Inr b \<Longrightarrow> b = supported (n, m) dy w"
  by (induction dy)
     (auto simp: supported_def agrees_def getitem_def split: if_splits sum.splits)

lemma revise_loop_Inr:
  "map_of doms y = Some dy \<Longrightarrow> revise_loop doms y s dx = Inr inc \<Longrightarrow>
   inc = filter (\<lambda>w. \<not> supported s dy w) dx"
proof (induction dx arbitrary: inc)
  case Nil
  then show ?case by simp
next
  case (Cons w dx)
  from Cons.prems obtain ok inc' where
    c: "check doms y s w = Inr ok" and r: "revise_loop doms y s dx = Inr inc'" and
    i: "inc = (if ok then inc' else w # inc')"
    by (auto split: sum.splits)
  from c Cons.prems(1) have "check_loop (fst s) (snd s) w dy = Inr ok"
    by (simp add: check_def lookup_def)
  then have "ok = supported s dy w" using check_loop_Inr [of "fst s" "snd s" w dy ok] by simp
  with Cons.IH [OF Cons.prems(1) r] i show ?case by simp
qed

lemma check_loop_total:
  "(dy \<noteq> [] \<longrightarrow> n < length w) \<Longrightarrow> \<forall>w' \<in> set dy. m < length w' \<Longrightarrow>
   check_loop n m w dy = Inr (supported (n, m) dy w)"
  by (induction dy) (auto simp: supported_def agrees_def getitem_def)

lemma revise_loop_total:
  assumes dy: "map_of doms y = Some dy"
    and inx: "\<forall>w \<in> set dx. fst s < length w" and iny: "\<forall>w' \<in> set dy. snd s < length w'"
  shows "revise_loop doms y s dx = Inr (filter (\<lambda>w. \<not> supported s dy w) dx)"
  using inx
proof (induction dx)
  case Nil
  show ?case by simp
next
  case (Cons w dx)
  from Cons.prems have "fst s < length w" by simp
  with iny have "check_loop (fst s) (snd s) w dy = Inr (supported (fst s, snd s) dy w)"
    by (intro check_loop_total) simp_all
  then have c: "check doms y s w = Inr (supported s dy w)"
    using dy by (simp add: check_def lookup_def)
  from Cons have r: "revise_loop doms y s dx = Inr (filter (\<lambda>w. \<not> supported s dy w) dx)"
    by simp
  show ?case by (simp add: c r)
qed

lemma revise_total:
  assumes s: "overlaps cw (x, y) = Some s" and dx: "map_of doms x = Some dx"
    and dy: "map_of doms y = Some dy"
    and inx: "\<forall>w \<in> set dx. fst s < length w" and iny: "\<forall>w' \<in> set dy. snd s < length w'"
  shows "revise cw x y doms =
           Inr (if \<exists>w \<in> set dx. \<not> supported s dy w
                then (True, AList.update x (filter (supported s dy) dx) doms)
                else (False, doms))"
proof -
  let ?inc = "filter (\<lambda>w. \<not> supported s dy w) dx"
  have l: "revise_loop doms y s dx = Inr ?inc" using dy inx iny by (rule revise_loop_total)
  have e: "(?inc \<noteq> []) = (\<exists>w \<in> set dx. \<not> supported s dy w)"
    by (auto simp: filter_empty_conv)
  have d: "difference dx ?inc = filter (supported s dy) dx" by (simp add: difference_filter)
  have "revise cw x y doms =
          (if ?inc \<noteq> [] then Inr (True, AList.update x (difference dx ?inc) doms)
           else Inr (False, doms))"
    using s dx l by (simp add: revise_def lookup_def)
  then show ?thesis unfolding e d by simp
qed

lemma revise_returned:
  assumes s: "overlaps cw (x, y) = Some shared" and dx: "map_of doms x = Some dx"
    and dy: "map_of doms y = Some dy" and rev: "revise cw x y doms = Inr (revised, doms')"
  shows "map_of doms' x = Some (filter (supported shared dy) dx) \<and>
         (\<forall>v. v \<noteq> x \<longrightarrow> map_of doms' v = map_of doms v) \<and>
         map fst doms' = map fst doms \<and>
         revised = (\<exists>w \<in> set dx. \<not> supported shared dy w) \<and>
         revised = (length (filter (supported shared dy) dx) < length dx)"
proof -
  let ?inc = "filter (\<lambda>w. \<not> supported shared dy w) dx"
  let ?keep = "filter (supported shared dy) dx"
  from s dx rev obtain inc where l: "revise_loop doms y shared dx = Inr inc" and
    r: "(revised, doms') = (if inc \<noteq> [] then (True, AList.update x (difference dx inc) doms) else (False, doms))"
    by (auto simp: revise_def lookup_def split: sum.splits if_splits)
  from dy l have inc: "inc = ?inc" by (rule revise_loop_Inr)
  have d: "difference dx inc = ?keep" unfolding inc by (simp add: difference_filter)
  have e: "(inc \<noteq> []) = (\<exists>w \<in> set dx. \<not> supported shared dy w)"
    unfolding inc by (auto simp: filter_empty_conv)
  have n: "(inc = []) = (?keep = dx)"
    unfolding inc by (auto simp: filter_empty_conv filter_id_conv)
  from dx have kx: "x \<in> set (map fst doms)" by (auto dest: map_of_SomeD intro: rev_image_eqI)
  have 1: "map_of doms' x = Some ?keep"
  proof (cases "inc = []")
    case True
    with r n dx show ?thesis by simp
  next
    case False
    with r d show ?thesis by (simp add: update_conv')
  qed
  have 2: "map_of doms' v = map_of doms v" if "v \<noteq> x" for v
    using r that by (cases "inc = []") (simp_all add: update_conv')
  have 3: "map fst doms' = map fst doms"
    using r kx by (cases "inc = []") (simp_all add: update_keys)
  have 4: "revised = (\<exists>w \<in> set dx. \<not> supported shared dy w)"
    using r e by (cases "inc = []") simp_all
  have "length ?keep \<le> length dx" by simp
  moreover have "(length ?keep = length dx) = (?keep = dx)"
    by (metis filter_id_conv filter_True length_filter_less order_less_irrefl)
  ultimately have "(inc \<noteq> []) = (length ?keep < length dx)" using n by linarith
  then have 5: "revised = (length ?keep < length dx)"
    using r by (cases "inc = []") simp_all
  from 1 2 3 4 5 show ?thesis by blast
qed

text \<open>
  C5. When \<open>x\<close> and \<open>y\<close> have no overlap, \<^verbatim>\<open>revise\<close> returns \<^verbatim>\<open>False\<close> at once and leaves
  the store as it is. When they overlap, both have a domain in the store, and every word
  of the two domains is long enough for its overlap index, \<^verbatim>\<open>revise\<close> raises nothing: it
  returns \<^verbatim>\<open>True\<close> and replaces the domain of \<open>x\<close> by its words that some word of the domain
  of \<open>y\<close> agrees with at the overlap when a word of \<open>x\<close> has no such partner, and it returns
  \<^verbatim>\<open>False\<close> and leaves the store as it is otherwise. Whenever \<^verbatim>\<open>revise\<close> returns on an
  overlapping pair, with or without that bound on the lengths, the new domain of \<open>x\<close> is
  the old one without exactly the words that no word of the domain of \<open>y\<close> agrees with, no
  other domain changes, and the answer is \<^verbatim>\<open>True\<close> exactly when some word was removed,
  that is exactly when the domain of \<open>x\<close> became smaller.
\<close>

theorem revise_removes_unsupported:
  "(overlaps cw (x, y) = None \<longrightarrow> revise cw x y doms = Inr (False, doms)) \<and>
   (\<forall>shared dx dy.
      overlaps cw (x, y) = Some shared \<and> map_of doms x = Some dx \<and> map_of doms y = Some dy \<longrightarrow>
        ((\<forall>w \<in> set dx. fst shared < length w) \<and> (\<forall>w' \<in> set dy. snd shared < length w') \<longrightarrow>
           revise cw x y doms =
             Inr (if \<exists>w \<in> set dx. \<not> supported shared dy w
                  then (True, AList.update x (filter (supported shared dy) dx) doms)
                  else (False, doms))) \<and>
        (\<forall>revised doms'. revise cw x y doms = Inr (revised, doms') \<longrightarrow>
           map_of doms' x = Some (filter (supported shared dy) dx) \<and>
           (\<forall>v. v \<noteq> x \<longrightarrow> map_of doms' v = map_of doms v) \<and>
           map fst doms' = map fst doms \<and>
           revised = (\<exists>w \<in> set dx. \<not> supported shared dy w) \<and>
           revised = (length (filter (supported shared dy) dx) < length dx)))"
proof -
  have none: "overlaps cw (x, y) = None \<longrightarrow> revise cw x y doms = Inr (False, doms)"
    by (simp add: revise_def)
  have total: "revise cw x y doms =
      Inr (if \<exists>w \<in> set dx. \<not> supported shared dy w
           then (True, AList.update x (filter (supported shared dy) dx) doms)
           else (False, doms))"
    if "overlaps cw (x, y) = Some shared" "map_of doms x = Some dx" "map_of doms y = Some dy"
      "\<forall>w \<in> set dx. fst shared < length w" "\<forall>w' \<in> set dy. snd shared < length w'"
    for shared dx dy
    using that by (rule revise_total)
  have returned: "map_of doms' x = Some (filter (supported shared dy) dx) \<and>
        (\<forall>v. v \<noteq> x \<longrightarrow> map_of doms' v = map_of doms v) \<and>
        map fst doms' = map fst doms \<and>
        revised = (\<exists>w \<in> set dx. \<not> supported shared dy w) \<and>
        revised = (length (filter (supported shared dy) dx) < length dx)"
    if "overlaps cw (x, y) = Some shared" "map_of doms x = Some dx" "map_of doms y = Some dy"
      "revise cw x y doms = Inr (revised, doms')"
    for shared dx dy revised doms'
    using that by (rule revise_returned)
  show ?thesis
  proof (rule conjI [OF none], intro allI impI, elim conjE, rule conjI)
    fix shared dx dy
    assume a: "overlaps cw (x, y) = Some shared" "map_of doms x = Some dx" "map_of doms y = Some dy"
    show "(\<forall>w \<in> set dx. fst shared < length w) \<and> (\<forall>w' \<in> set dy. snd shared < length w') \<longrightarrow>
          revise cw x y doms =
            Inr (if \<exists>w \<in> set dx. \<not> supported shared dy w
                 then (True, AList.update x (filter (supported shared dy) dx) doms)
                 else (False, doms))"
      using total [OF a] by blast
    show "\<forall>revised doms'. revise cw x y doms = Inr (revised, doms') \<longrightarrow>
           map_of doms' x = Some (filter (supported shared dy) dx) \<and>
           (\<forall>v. v \<noteq> x \<longrightarrow> map_of doms' v = map_of doms v) \<and>
           map fst doms' = map fst doms \<and>
           revised = (\<exists>w \<in> set dx. \<not> supported shared dy w) \<and>
           revised = (length (filter (supported shared dy) dx) < length dx)"
      using returned [OF a] by blast
  qed
qed

lemma revise_example:
  "revise cw2 v1 v2 [(v1, [''cat'', ''dog'']), (v2, [''cow'', ''cup''])]
     = Inr (True, [(v1, [''cat'']), (v2, [''cow'', ''cup''])])"
  by (simp add: revise_def lookup_def check_def getitem_def difference_def)

lemma supported_example:
  "supported (0, 0) [''cow'', ''cup''] ''cat''" "\<not> supported (0, 0) [''cow'', ''cup''] ''dog''"
  by (simp_all add: supported_def agrees_def)

theorem revise_removes_unsupported_witness:
  "overlaps cw2 (v1, v2) = Some (0, 0) \<and>
   map_of [(v1, [''cat'', ''dog'']), (v2, [''cow'', ''cup''])] v1 = Some [''cat'', ''dog''] \<and>
   map_of [(v1, [''cat'', ''dog'']), (v2, [''cow'', ''cup''])] v2 = Some [''cow'', ''cup''] \<and>
   0 < length ''cat'' \<and> 0 < length ''dog'' \<and> 0 < length ''cow'' \<and> 0 < length ''cup'' \<and>
   revise cw2 v1 v2 [(v1, [''cat'', ''dog'']), (v2, [''cow'', ''cup''])]
     = Inr (True, [(v1, [''cat'']), (v2, [''cow'', ''cup''])]) \<and>
   map_of [(v1, [''cat'']), (v2, [''cow'', ''cup''])] v1
     = Some (filter (supported (0, 0) [''cow'', ''cup'']) [''cat'', ''dog'']) \<and>
   True = (length (filter (supported (0, 0) [''cow'', ''cup'']) [''cat'', ''dog'']) < length [''cat'', ''dog''])"
proof -
  let ?d = "[(v1, [''cat'', ''dog'']), (v2, [''cow'', ''cup''])]"
  let ?d' = "[(v1, [''cat'']), (v2, [''cow'', ''cup''])]"
  have h: "overlaps cw2 (v1, v2) = Some (0, 0) \<and> map_of ?d v1 = Some [''cat'', ''dog''] \<and>
    map_of ?d v2 = Some [''cow'', ''cup'']"
    by simp
  have b: "(\<forall>w \<in> set [''cat'', ''dog'']. fst (0 :: nat, 0 :: nat) < length w) \<and>
           (\<forall>w' \<in> set [''cow'', ''cup'']. snd (0 :: nat, 0 :: nat) < length w')"
    by simp
  from revise_removes_unsupported [of cw2 v1 v2 ?d] h b
  have t: "revise cw2 v1 v2 ?d =
      Inr (if \<exists>w \<in> set [''cat'', ''dog'']. \<not> supported (0, 0) [''cow'', ''cup''] w
           then (True, AList.update v1 (filter (supported (0, 0) [''cow'', ''cup'']) [''cat'', ''dog'']) ?d)
           else (False, ?d))"
    by blast
  have r: "revise cw2 v1 v2 ?d = Inr (True, ?d')"
    unfolding t by (simp add: supported_example)
  from revise_removes_unsupported [of cw2 v1 v2 ?d] h r
  have "map_of ?d' v1 = Some (filter (supported (0, 0) [''cow'', ''cup'']) [''cat'', ''dog'']) \<and>
        True = (length (filter (supported (0, 0) [''cow'', ''cup'']) [''cat'', ''dog'']) < length [''cat'', ''dog''])"
    by blast
  with h r show ?thesis by simp
qed

subsection \<open>\<^verbatim>\<open>ac3\<close>: the arcs put back on the queue\<close>

text \<open>
  C6, as the source has it. When \<^verbatim>\<open>revise(x, y)\<close> has made the domain of \<open>x\<close> smaller and
  not empty, the iteration appends the arc \<open>(neighbor, x)\<close> for every neighbor of \<open>x\<close>,
  in the order of \<^verbatim>\<open>neighbors(x)\<close> and with \<open>y\<close> among them when \<open>y\<close> is a neighbor; the
  loop goes on with the rest of the queue followed by these arcs.
\<close>

theorem ac3_body_enqueues_all_neighbors:
  "revise cw x y doms = Inr (True, doms') \<and> map_of doms' x = Some dx \<and> dx \<noteq> [] \<longrightarrow>
     ac3_body cw x y doms = Inr (Some (map (\<lambda>neighbor. (neighbor, x)) (neighbors cw x)), doms') \<and>
     ac3_loop cw ((x, y) # queue) doms =
       ac3_loop cw (queue @ map (\<lambda>neighbor. (neighbor, x)) (neighbors cw x)) doms'"
  by (simp add: ac3_body_def lookup_def)

theorem ac3_body_enqueues_all_neighbors_witness:
  "revise cw2 v1 v2 [(v1, [''cat'', ''dog'']), (v2, [''cow'', ''cup''])]
     = Inr (True, [(v1, [''cat'']), (v2, [''cow'', ''cup''])]) \<and>
   map_of [(v1, [''cat'']), (v2, [''cow'', ''cup''])] v1 = Some [''cat''] \<and> [''cat''] \<noteq> [] \<and>
   ac3_body cw2 v1 v2 [(v1, [''cat'', ''dog'']), (v2, [''cow'', ''cup''])]
     = Inr (Some [(v2, v1)], [(v1, [''cat'']), (v2, [''cow'', ''cup''])])"
  using ac3_body_enqueues_all_neighbors [of cw2 v1 v2 "[(v1, [''cat'', ''dog'']), (v2, [''cow'', ''cup''])]"
    "[(v1, [''cat'']), (v2, [''cow'', ''cup''])]" "[''cat'']" "[]"]
  by (simp add: revise_example)

text \<open>
  C6, as it is stated, fails on the puzzle \<open>cw2\<close>: revising \<open>v1\<close> against its only
  neighbor \<open>v2\<close> removes a word, and the arc \<open>(v2, v1)\<close> is put on the queue, although
  \<open>v1\<close> has no neighbor other than \<open>v2\<close>.
\<close>

theorem ac3_body_enqueues_back_arc:
  "revise cw2 v1 v2 [(v1, [''cat'', ''dog'']), (v2, [''cow'', ''cup''])]
     = Inr (True, [(v1, [''cat'']), (v2, [''cow'', ''cup''])]) \<and>
   ac3_body cw2 v1 v2 [(v1, [''cat'', ''dog'']), (v2, [''cow'', ''cup''])]
     = Inr (Some [(v2, v1)], [(v1, [''cat'']), (v2, [''cow'', ''cup''])]) \<and>
   set [(v2, v1)] \<noteq> set (map (\<lambda>neighbor. (neighbor, v1)) (filter (\<lambda>neighbor. neighbor \<noteq> v2) (neighbors cw2 v1)))"
  by (simp add: revise_example ac3_body_def lookup_def)

subsection \<open>\<^verbatim>\<open>ac3\<close>: a domain that is empty from the start\<close>

text \<open>
  C4. The puzzle \<open>cw1\<close> has one variable of length three and no word of that length:
  node consistency empties the domain, the queue of \<^verbatim>\<open>ac3\<close> is empty, and \<^verbatim>\<open>ac3\<close>
  answers \<^verbatim>\<open>True\<close> with an empty domain in the store.
\<close>

theorem ac3_true_with_empty_domain:
  "enforce_node_consistency (init_domains cw1) = Inr [(v1, [])] \<and>
   ac3 cw1 None [(v1, [])] = Inr (True, [(v1, [])]) \<and>
   map_of [(v1, [])] v1 = Some []"
  by (simp add: enforce_node_consistency_def init_domains_def lookup_def difference_def
      ac3_def initial_queue_def)

subsection \<open>\<^verbatim>\<open>select_unassigned_variable\<close>: the tie on the domain size\<close>

text \<open>
  C3. In the puzzle \<open>cw3\<close> the three domains have the same size, \<open>v1\<close> has two neighbors
  and \<open>v2\<close> has one: \<^verbatim>\<open>select_unassigned_variable\<close> returns \<open>v2\<close>, a variable of the
  smallest degree among the tied ones.
\<close>

theorem select_unassigned_variable_lowest_degree:
  "init_domains cw3 = [(v1, [''cat'', ''cow'', ''dog'', ''tip'']), (v2, [''cat'', ''cow'', ''dog'', ''tip'']),
                       (v3, [''cat'', ''cow'', ''dog'', ''tip''])] \<and>
   select_unassigned_variable cw3 (init_domains cw3) [] = Inr v2 \<and>
   length (neighbors cw3 v2) = 1 \<and> length (neighbors cw3 v1) = 2"
  by (simp add: init_domains_def select_unassigned_variable_def lookup_def has_key_def
      sorted_keys_def getitem_def)

subsection \<open>\<^verbatim>\<open>ac3\<close>: arc consistency is a fixed point\<close>

lemma domain_of_key:
  "x \<in> set (map fst doms) \<Longrightarrow> map_of doms x = Some (domain_of doms x)"
  by (cases "map_of doms x") (auto simp: domain_of_def map_of_eq_None_iff)

lemma arc_consistentD:
  "arc_consistent cw doms \<Longrightarrow> x \<in> set (map fst doms) \<Longrightarrow> y \<in> set (map fst doms) \<Longrightarrow> x \<noteq> y \<Longrightarrow>
   overlaps cw (x, y) = Some shared \<Longrightarrow> w \<in> set (domain_of doms x) \<Longrightarrow>
   supported shared (domain_of doms y) w"
  unfolding arc_consistent_def arc_ok_def by (fastforce split: option.splits)

lemma check_loop_supported:
  "supported (n, m) dy w \<Longrightarrow> \<forall>w' \<in> set dy. m < length w' \<Longrightarrow> check_loop n m w dy = Inr True"
  by (induction dy) (auto simp: supported_def agrees_def getitem_def)

lemma revise_loop_all_ok:
  "\<forall>w \<in> set ws. check doms y s w = Inr True \<Longrightarrow> revise_loop doms y s ws = Inr []"
  by (induction ws) auto

lemma revise_arc_consistent:
  assumes ac: "arc_consistent cw doms" and sym: "overlaps_symmetric cw (map fst doms)"
    and x: "x \<in> set (map fst doms)" and y: "y \<in> set (map fst doms)" and xy: "x \<noteq> y"
  shows "revise cw x y doms = Inr (False, doms)"
proof (cases "overlaps cw (x, y)")
  case None
  then show ?thesis by (simp add: revise_def)
next
  case (Some s)
  let ?dx = "domain_of doms x" and ?dy = "domain_of doms y"
  have yx: "overlaps cw (y, x) = Some (prod.swap s)"
    using sym x y Some unfolding overlaps_symmetric_def by fastforce
  have len: "snd s < length w'" if "w' \<in> set ?dy" for w'
  proof -
    from arc_consistentD [OF ac y x xy [symmetric] yx that]
    show ?thesis by (auto simp: supported_def agrees_def)
  qed
  have "check doms y s w = Inr True" if "w \<in> set ?dx" for w
  proof -
    from arc_consistentD [OF ac x y xy Some that]
    have "supported (fst s, snd s) ?dy w" by simp
    then have "check_loop (fst s) (snd s) w ?dy = Inr True"
      using len by (intro check_loop_supported) auto
    then show ?thesis using domain_of_key [OF y] by (simp add: check_def lookup_def)
  qed
  then have "revise_loop doms y s ?dx = Inr []" by (intro revise_loop_all_ok) simp
  then show ?thesis using Some domain_of_key [OF x] by (simp add: revise_def lookup_def)
qed

lemma ac3_loop_noop:
  "\<forall>(x, y) \<in> set queue. revise cw x y doms = Inr (False, doms) \<Longrightarrow>
   ac3_loop cw queue doms = Inr (True, doms)"
proof (induction queue)
  case Nil
  then show ?case by simp
next
  case (Cons a queue)
  obtain x y where a: "a = (x, y)" by (cases a)
  with Cons.prems have "ac3_body cw x y doms = Inr (Some [], doms)"
    by (simp add: ac3_body_def)
  with a Cons show ?case by simp
qed

lemma initial_queue_set:
  "set (initial_queue arcs) = {(x, y). x \<in> set arcs \<and> y \<in> set arcs \<and> x \<noteq> y}"
  by (auto simp: initial_queue_def)

lemma ac3_arc_consistent:
  assumes ac: "arc_consistent cw doms" and sym: "overlaps_symmetric cw (map fst doms)"
  shows "ac3 cw None doms = Inr (True, doms)"
proof -
  have "revise cw x y doms = Inr (False, doms)"
    if "(x, y) \<in> set (initial_queue (map fst doms))" for x y
    using that ac sym revise_arc_consistent [of cw doms x y] by (simp add: initial_queue_set)
  then have "\<forall>(x, y) \<in> set (initial_queue (map fst doms)). revise cw x y doms = Inr (False, doms)"
    by blast
  then show ?thesis by (simp add: ac3_def ac3_loop_noop)
qed

lemma revise_True_shape:
  assumes "revise cw x y doms = Inr (True, doms')"
  shows "\<exists>s dx dx'. overlaps cw (x, y) = Some s \<and> map_of doms x = Some dx \<and> set dx' \<subseteq> set dx \<and>
           doms' = AList.update x dx' doms \<and>
           (\<forall>dy. map_of doms y = Some dy \<longrightarrow> dx' = filter (supported s dy) dx)"
proof -
  from assms obtain s dx inc where s: "overlaps cw (x, y) = Some s" and dx: "map_of doms x = Some dx"
    and l: "revise_loop doms y s dx = Inr inc" and d: "doms' = AList.update x (difference dx inc) doms"
    by (auto simp: revise_def lookup_def split: option.splits sum.splits if_splits)
  have "set (difference dx inc) \<subseteq> set dx" by (auto simp: difference_def)
  moreover have "difference dx inc = filter (supported s dy) dx" if "map_of doms y = Some dy" for dy
    using revise_loop_Inr [OF that l] by (simp add: difference_filter)
  ultimately show ?thesis using s dx d by blast
qed

lemma revise_False_arc_ok:
  assumes "revise cw x y doms = Inr (False, doms')" and "y \<in> set (map fst doms)" and "x \<in> set (map fst doms)"
  shows "arc_ok cw doms x y"
proof (cases "overlaps cw (x, y)")
  case None
  then show ?thesis by (simp add: arc_ok_def)
next
  case (Some s)
  from assms Some domain_of_key [OF assms(3)] obtain inc where
    l: "revise_loop doms y s (domain_of doms x) = Inr inc" and e: "inc = []"
    by (auto simp: revise_def lookup_def split: sum.splits if_splits)
  from revise_loop_Inr [OF domain_of_key [OF assms(2)] l] e
  have "filter (\<lambda>w. \<not> supported s (domain_of doms y) w) (domain_of doms x) = []" by simp
  then show ?thesis using Some by (auto simp: arc_ok_def filter_empty_conv)
qed

lemma domain_of_update:
  "domain_of (AList.update x d doms) v = (if v = x then d else domain_of doms v)"
  by (simp add: domain_of_def update_conv')

lemma arc_ok_shrink:
  assumes ok: "arc_ok cw doms a b" and b: "b \<noteq> x" and sub: "set dx' \<subseteq> set (domain_of doms x)"
  shows "arc_ok cw (AList.update x dx' doms) a b"
  using ok b sub unfolding arc_ok_def
  by (auto simp: domain_of_update split: option.splits)

lemma ac3_body_Some_revise:
  "ac3_body cw x y doms = Inr (Some new, d1) \<Longrightarrow>
   (revise cw x y doms = Inr (False, d1) \<and> new = []) \<or>
   (revise cw x y doms = Inr (True, d1) \<and> new = map (\<lambda>neighbor. (neighbor, x)) (neighbors cw x))"
  unfolding ac3_body_def
  by (cases "revise cw x y doms") (auto split: if_splits sum.splits)

lemma ac3_loop_Cons_True:
  "ac3_loop cw ((x, y) # queue) doms = Inr (True, doms') \<Longrightarrow>
   \<exists>new d1. ac3_body cw x y doms = Inr (Some new, d1) \<and> ac3_loop cw (queue @ new) d1 = Inr (True, doms')"
proof -
  assume a: "ac3_loop cw ((x, y) # queue) doms = Inr (True, doms')"
  show ?thesis
  proof (cases "ac3_body cw x y doms")
    case (Inl e)
    with a show ?thesis by simp
  next
    case (Inr r)
    obtain opt d1 where r: "r = (opt, d1)" by (cases r)
    show ?thesis
    proof (cases opt)
      case None
      with a Inr r show ?thesis by simp
    next
      case (Some new)
      with a Inr r show ?thesis by simp
    qed
  qed
qed

lemma step_invariant_False:
  assumes rev: "revise cw x y doms = Inr (False, d1)" and inv: "queue_invariant cw ((x, y) # queue) doms"
  shows "map fst d1 = map fst doms \<and> queue_invariant cw queue d1"
proof -
  from rev have d1: "d1 = doms" by (rule revise_unchanged)
  have ok: "arc_ok cw doms x y" if "x \<in> set (map fst doms)" "y \<in> set (map fst doms)"
    using revise_False_arc_ok [OF rev that(2) that(1)] .
  have "a = b \<or> (a, b) \<in> set queue \<or> arc_ok cw doms a b"
    if a: "a \<in> set (map fst doms)" and b: "b \<in> set (map fst doms)" for a b
  proof (cases "(a, b) = (x, y)")
    case True
    with ok a b show ?thesis by simp
  next
    case False
    from inv a b have "a = b \<or> (a, b) \<in> set ((x, y) # queue) \<or> arc_ok cw doms a b"
      unfolding queue_invariant_def by blast
    with False show ?thesis by auto
  qed
  then show ?thesis unfolding d1 queue_invariant_def by blast
qed

lemma step_invariant_True:
  assumes rev: "revise cw x y doms = Inr (True, d1)"
    and inv: "queue_invariant cw ((x, y) # queue) doms"
    and cov: "neighbors_cover cw (map fst doms)"
  shows "map fst d1 = map fst doms \<and>
         queue_invariant cw (queue @ map (\<lambda>neighbor. (neighbor, x)) (neighbors cw x)) d1"
proof -
  let ?K = "set (map fst doms)"
  let ?new = "map (\<lambda>neighbor. (neighbor, x)) (neighbors cw x)"
  from revise_True_shape [OF rev] obtain s dx dx' where
    s: "overlaps cw (x, y) = Some s" and dx: "map_of doms x = Some dx" and sub: "set dx' \<subseteq> set dx"
    and d1: "d1 = AList.update x dx' doms"
    and flt: "\<forall>dy. map_of doms y = Some dy \<longrightarrow> dx' = filter (supported s dy) dx"
    by blast
  from dx have xK: "x \<in> ?K" by (auto dest: map_of_SomeD intro: rev_image_eqI)
  have keys: "map fst d1 = map fst doms" unfolding d1 using xK by (rule update_keys_present)
  have dox: "domain_of doms x = dx" using dx by (simp add: domain_of_def)
  have "a = b \<or> (a, b) \<in> set (queue @ ?new) \<or> arc_ok cw d1 a b" if a: "a \<in> ?K" and b: "b \<in> ?K" for a b
  proof (cases "a = b \<or> (a, b) \<in> set queue")
    case True
    then show ?thesis by auto
  next
    case False
    then have ab: "a \<noteq> b" and nq: "(a, b) \<notin> set queue" by auto
    show ?thesis
    proof (cases "(a, b) = (x, y)")
      case True
      then have ax: "a = x" and by': "b = y" by auto
      from ab ax by' have xy: "y \<noteq> x" by simp
      from flt domain_of_key [OF b] by' have f: "dx' = filter (supported s (domain_of doms y)) dx" by simp
      have "domain_of d1 x = dx'" "domain_of d1 y = domain_of doms y"
        unfolding d1 using xy by (simp_all add: domain_of_update)
      then have "arc_ok cw d1 x y"
        using s f unfolding arc_ok_def by simp
      then show ?thesis using ax by' by simp
    next
      case neq: False
      from inv a b have "a = b \<or> (a, b) \<in> set ((x, y) # queue) \<or> arc_ok cw doms a b"
        unfolding queue_invariant_def by blast
      with ab nq neq have ok: "arc_ok cw doms a b" by auto
      show ?thesis
      proof (cases "b = x")
        case True
        show ?thesis
        proof (cases "overlaps cw (a, x)")
          case None
          then show ?thesis using True by (simp add: arc_ok_def)
        next
          case (Some t)
          from cov a xK have "a = x \<or> overlaps cw (a, x) = None \<or> a \<in> set (neighbors cw x)"
            unfolding neighbors_cover_def by blast
          with Some ab True have "a \<in> set (neighbors cw x)" by simp
          then have "(a, b) \<in> set ?new" using True by auto
          then show ?thesis by simp
        qed
      next
        case False
        from sub dox have "set dx' \<subseteq> set (domain_of doms x)" by simp
        from arc_ok_shrink [OF ok False this] show ?thesis unfolding d1 by simp
      qed
    qed
  qed
  then have "queue_invariant cw (queue @ ?new) d1"
    unfolding queue_invariant_def keys by blast
  with keys show ?thesis by simp
qed

lemma ac3_loop_sound:
  "ac3_loop cw queue doms = Inr (True, doms') \<Longrightarrow> neighbors_cover cw (map fst doms) \<Longrightarrow>
   queue_invariant cw queue doms \<Longrightarrow>
   map fst doms' = map fst doms \<and> arc_consistent cw doms'"
proof (induction cw queue doms rule: ac3_loop.induct)
  case (1 cw doms)
  from "1.prems"(1) have "doms' = doms" by simp
  with "1.prems"(3) show ?case by (simp add: queue_invariant_def arc_consistent_def)
next
  case (2 cw x y queue doms)
  from ac3_loop_Cons_True [OF "2.prems"(1)] obtain new d1 where
    body: "ac3_body cw x y doms = Inr (Some new, d1)"
    and rest: "ac3_loop cw (queue @ new) d1 = Inr (True, doms')"
    by blast
  have "map fst d1 = map fst doms \<and> queue_invariant cw (queue @ new) d1"
  proof (rule disjE [OF ac3_body_Some_revise [OF body]])
    assume "revise cw x y doms = Inr (False, d1) \<and> new = []"
    then have rv: "revise cw x y doms = Inr (False, d1)" and n: "new = []" by blast+
    from step_invariant_False [OF rv "2.prems"(3)] show ?thesis unfolding n by simp
  next
    assume "revise cw x y doms = Inr (True, d1) \<and>
            new = map (\<lambda>neighbor. (neighbor, x)) (neighbors cw x)"
    then have rv: "revise cw x y doms = Inr (True, d1)"
      and n: "new = map (\<lambda>neighbor. (neighbor, x)) (neighbors cw x)" by blast+
    from step_invariant_True [OF rv "2.prems"(3) "2.prems"(2)] show ?thesis unfolding n .
  qed
  then have k1: "map fst d1 = map fst doms" and inv1: "queue_invariant cw (queue @ new) d1"
    by blast+
  from "2.prems"(2) k1 have cov1: "neighbors_cover cw (map fst d1)" by simp
  from "2.IH" [OF body refl refl rest cov1 inv1] k1 show ?case by simp
qed

lemma queue_invariant_initial: "queue_invariant cw (initial_queue (map fst doms)) doms"
  unfolding queue_invariant_def initial_queue_set by blast

lemma ac3_sound:
  assumes r: "ac3 cw None doms = Inr (True, doms')" and cov: "neighbors_cover cw (map fst doms)"
  shows "map fst doms' = map fst doms \<and> arc_consistent cw doms'"
proof -
  from r have "ac3_loop cw (initial_queue (map fst doms)) doms = Inr (True, doms')"
    by (simp add: ac3_def)
  from this cov queue_invariant_initial show ?thesis by (rule ac3_loop_sound)
qed


text \<open>
  C8. On a store that is arc consistent, over a symmetric overlap table, \<^verbatim>\<open>ac3()\<close>
  raises nothing, returns \<^verbatim>\<open>True\<close> and leaves every domain as it is. And when \<^verbatim>\<open>ac3()\<close>
  has returned \<^verbatim>\<open>True\<close>, on a puzzle whose \<^verbatim>\<open>neighbors\<close> cover the overlapping variables,
  the store it leaves is arc consistent, so that a second run returns \<^verbatim>\<open>True\<close> and
  changes nothing.
\<close>

theorem ac3_fixed_point:
  "(arc_consistent cw doms \<and> overlaps_symmetric cw (map fst doms) \<longrightarrow>
      ac3 cw None doms = Inr (True, doms)) \<and>
   (\<forall>doms'. ac3 cw None doms = Inr (True, doms') \<and> neighbors_cover cw (map fst doms) \<and>
        overlaps_symmetric cw (map fst doms) \<longrightarrow>
      arc_consistent cw doms' \<and> ac3 cw None doms' = Inr (True, doms'))"
proof (rule conjI)
  show "arc_consistent cw doms \<and> overlaps_symmetric cw (map fst doms) \<longrightarrow>
      ac3 cw None doms = Inr (True, doms)"
    using ac3_arc_consistent by blast
next
  show "\<forall>doms'. ac3 cw None doms = Inr (True, doms') \<and> neighbors_cover cw (map fst doms) \<and>
        overlaps_symmetric cw (map fst doms) \<longrightarrow>
      arc_consistent cw doms' \<and> ac3 cw None doms' = Inr (True, doms')"
  proof (intro allI impI, elim conjE)
    fix doms'
    assume r: "ac3 cw None doms = Inr (True, doms')" and cov: "neighbors_cover cw (map fst doms)"
      and sym: "overlaps_symmetric cw (map fst doms)"
    from ac3_sound [OF r cov] have k: "map fst doms' = map fst doms" and ac: "arc_consistent cw doms'"
      by blast+
    from sym k have "overlaps_symmetric cw (map fst doms')" by simp
    with ac show "arc_consistent cw doms' \<and> ac3 cw None doms' = Inr (True, doms')"
      by (simp add: ac3_arc_consistent)
  qed
qed

lemma cw2_overlaps_self [simp]: "overlaps cw2 (v1, v1) = None" "overlaps cw2 (v2, v2) = None"
  by (simp_all add: cw2_def)

lemma cw2_symmetric: "overlaps_symmetric cw2 [v1, v2]"
  by (simp add: overlaps_symmetric_def)

lemma cw2_cover: "neighbors_cover cw2 [v1, v2]"
  by (simp add: neighbors_cover_def)

lemma cw2_arc_consistent: "arc_consistent cw2 [(v1, [''cat'']), (v2, [''cow'', ''cup''])]"
  by (simp add: arc_consistent_def arc_ok_def domain_of_def supported_def agrees_def)

lemma ac3_example:
  "ac3 cw2 None [(v1, [''cat'', ''dog'']), (v2, [''cow'', ''cup''])]
     = Inr (True, [(v1, [''cat'']), (v2, [''cow'', ''cup''])])"
  by (simp add: ac3_def initial_queue_def ac3_body_def revise_example revise_def lookup_def
      check_def getitem_def difference_def)

theorem ac3_fixed_point_witness:
  "arc_consistent cw2 [(v1, [''cat'']), (v2, [''cow'', ''cup''])] \<and>
   overlaps_symmetric cw2 (map fst [(v1, [''cat'']), (v2, [''cow'', ''cup''])]) \<and>
   ac3 cw2 None [(v1, [''cat'']), (v2, [''cow'', ''cup''])]
     = Inr (True, [(v1, [''cat'']), (v2, [''cow'', ''cup''])]) \<and>
   ac3 cw2 None [(v1, [''cat'', ''dog'']), (v2, [''cow'', ''cup''])]
     = Inr (True, [(v1, [''cat'']), (v2, [''cow'', ''cup''])]) \<and>
   neighbors_cover cw2 (map fst [(v1, [''cat'', ''dog'']), (v2, [''cow'', ''cup''])]) \<and>
   overlaps_symmetric cw2 (map fst [(v1, [''cat'', ''dog'']), (v2, [''cow'', ''cup''])])"
proof -
  let ?d = "[(v1, [''cat'', ''dog'']), (v2, [''cow'', ''cup''])]"
  let ?d' = "[(v1, [''cat'']), (v2, [''cow'', ''cup''])]"
  have h1: "arc_consistent cw2 ?d' \<and> overlaps_symmetric cw2 (map fst ?d')"
    using cw2_arc_consistent cw2_symmetric by simp
  have h2: "ac3 cw2 None ?d = Inr (True, ?d') \<and> neighbors_cover cw2 (map fst ?d) \<and>
    overlaps_symmetric cw2 (map fst ?d)"
    using ac3_example cw2_cover cw2_symmetric by simp
  from ac3_fixed_point [of cw2 ?d'] h1 have "ac3 cw2 None ?d' = Inr (True, ?d')" by blast
  moreover from ac3_fixed_point [of cw2 ?d] h2 have "ac3 cw2 None ?d' = Inr (True, ?d')" by blast
  ultimately show ?thesis using h1 h2 by blast
qed

subsection \<open>The character accesses at the overlap positions\<close>

lemma node_consistentD:
  assumes "node_consistent doms" and "map_of doms v = Some ws" and "w \<in> set ws"
  shows "length w = var_length v"
proof -
  from assms(2) have "v \<in> set (map fst doms)" by (auto dest: map_of_SomeD intro: rev_image_eqI)
  moreover from assms(2) have "domain_of doms v = ws" by (simp add: domain_of_def)
  ultimately show ?thesis using assms(1,3) unfolding node_consistent_def by blast
qed

lemma assignment_fitsD:
  assumes "assignment_fits asg" and "map_of asg v = Some w"
  shows "length w = var_length v"
proof -
  from assms(2) have "v \<in> set (map fst asg)" by (auto dest: map_of_SomeD intro: rev_image_eqI)
  with assms(1) have "case map_of asg v of None \<Rightarrow> True | Some w \<Rightarrow> length w = var_length v"
    unfolding assignment_fits_def by blast
  with assms(2) show ?thesis by simp
qed

lemma overlaps_in_rangeD:
  "overlaps_in_range cw \<Longrightarrow> overlaps cw (x, y) = Some s \<Longrightarrow>
   fst s < var_length x \<and> snd s < var_length y"
proof -
  assume r: "overlaps_in_range cw" and s: "overlaps cw (x, y) = Some s"
  from r have "case overlaps cw (x, y) of None \<Rightarrow> True
    | Some shared \<Rightarrow> fst shared < var_length x \<and> snd shared < var_length y"
    unfolding overlaps_in_range_def by blast
  with s show ?thesis by simp
qed

lemma key_lookup: "k \<in> set (map fst d) \<Longrightarrow> \<exists>v. map_of d k = Some v"
  by (cases "map_of d k") (auto simp: map_of_eq_None_iff)

lemma revise_loop_no_key:
  "map_of doms y = None \<Longrightarrow>
   revise_loop doms y s dx = (if dx = [] then Inr [] else Inl KeyError)"
  by (cases dx) (simp_all add: check_def lookup_def)

lemma revise_in_bounds:
  assumes nc: "node_consistent doms" and rng: "overlaps_in_range cw"
  shows "revise cw x y doms \<noteq> Inl IndexError"
    and "x \<in> set (map fst doms) \<Longrightarrow> y \<in> set (map fst doms) \<Longrightarrow> \<exists>r. revise cw x y doms = Inr r"
proof -
  have main: "revise cw x y doms \<noteq> Inl IndexError \<and>
      (x \<in> set (map fst doms) \<and> y \<in> set (map fst doms) \<longrightarrow> (\<exists>r. revise cw x y doms = Inr r))"
  proof (cases "overlaps cw (x, y)")
    case None
    then show ?thesis by (auto simp: revise_def)
  next
    case (Some s)
    note s = this
    from overlaps_in_rangeD [OF rng s] have r: "fst s < var_length x" "snd s < var_length y" by simp_all
    show ?thesis
    proof (cases "map_of doms x")
      case None
      then have "x \<notin> set (map fst doms)" by (simp add: map_of_eq_None_iff)
      with None show ?thesis using s by (simp add: revise_def lookup_def)
    next
      case (Some dx)
      note dx = this
      show ?thesis
      proof (cases "map_of doms y")
        case None
        then have "y \<notin> set (map fst doms)" by (simp add: map_of_eq_None_iff)
        with None show ?thesis using s dx
          by (auto simp: revise_def lookup_def revise_loop_no_key)
      next
        case (Some dy)
        have "\<forall>w \<in> set dx. fst s < length w" using node_consistentD [OF nc dx] r by simp
        moreover have "\<forall>w' \<in> set dy. snd s < length w'" using node_consistentD [OF nc Some] r by simp
        ultimately show ?thesis using revise_total [OF s dx Some] by simp
      qed
    qed
  qed
  from main show "revise cw x y doms \<noteq> Inl IndexError" by blast
  from main show "x \<in> set (map fst doms) \<Longrightarrow> y \<in> set (map fst doms) \<Longrightarrow> \<exists>r. revise cw x y doms = Inr r"
    by blast
qed

lemma distinct_loop_total:
  "var \<in> set (map fst asg) \<Longrightarrow> set vs \<subseteq> set (map fst asg) \<Longrightarrow> \<exists>b. distinct_loop asg var vs = Inr b"
proof (induction vs)
  case Nil
  show ?case by auto
next
  case (Cons v vs)
  from Cons.prems key_lookup [of var asg] key_lookup [of v asg]
  obtain a b where "map_of asg var = Some a" "map_of asg v = Some b" by auto
  with Cons show ?case by (auto simp: lookup_def)
qed

lemma neighbor_loop_total:
  assumes fits: "assignment_fits asg" and rng: "overlaps_in_range cw" and var: "var \<in> set (map fst asg)"
  shows "\<exists>b. neighbor_loop cw asg var ns = Inr b"
proof (induction ns)
  case Nil
  show ?case by auto
next
  case (Cons n ns)
  show ?case
  proof (cases "overlaps cw (var, n)")
    case None
    with Cons show ?thesis by simp
  next
    case (Some s)
    show ?thesis
    proof (cases "has_key asg n")
      case False
      with Some Cons show ?thesis by simp
    next
      case True
      from var key_lookup obtain word where w: "map_of asg var = Some word" by metis
      from True key_lookup obtain nw where nw: "map_of asg n = Some nw" unfolding has_key_def by metis
      from overlaps_in_rangeD [OF rng Some] assignment_fitsD [OF fits w] assignment_fitsD [OF fits nw]
      have "fst s < length word" "snd s < length nw" by simp_all
      with Some True w nw Cons show ?thesis by (auto simp: lookup_def getitem_def)
    qed
  qed
qed

lemma consistent_loop_total:
  assumes fits: "assignment_fits asg" and rng: "overlaps_in_range cw"
  shows "set vars \<subseteq> set (map fst asg) \<Longrightarrow> \<exists>b. consistent_loop cw asg vars = Inr b"
proof (induction vars)
  case Nil
  show ?case by auto
next
  case (Cons var vars)
  then have var: "var \<in> set (map fst asg)" by simp
  from var key_lookup obtain word where w: "map_of asg var = Some word" by metis
  from distinct_loop_total [OF var subset_refl] obtain d where d: "distinct_loop asg var (map fst asg) = Inr d"
    by blast
  from neighbor_loop_total [OF fits rng var] obtain n where n: "neighbor_loop cw asg var (neighbors cw var) = Inr n"
    by blast
  from Cons have "\<exists>b. consistent_loop cw asg vars = Inr b" by simp
  with w d n show ?case by (auto simp: lookup_def)
qed

lemma consistent_total:
  "assignment_fits asg \<Longrightarrow> overlaps_in_range cw \<Longrightarrow> \<exists>b. consistent cw asg = Inr b"
  unfolding consistent_def by (rule consistent_loop_total) simp_all

lemma count_loop_total:
  "(ws \<noteq> [] \<longrightarrow> i < length word) \<Longrightarrow> \<forall>w \<in> set ws. j < length w \<Longrightarrow> \<exists>n'. count_loop i j word ws n = Inr n'"
  by (induction ws arbitrary: n) (auto simp: getitem_def)

lemma neighbors_count_in_bounds:
  assumes nc: "node_consistent doms" and rng: "overlaps_in_range cw" and len: "length word = var_length var"
  shows "neighbors_count cw doms asg var word ns n \<noteq> Inl IndexError \<and>
         (set ns \<subseteq> set (map fst doms) \<longrightarrow> (\<exists>n'. neighbors_count cw doms asg var word ns n = Inr n'))"
proof (induction ns arbitrary: n)
  case Nil
  show ?case by simp
next
  case (Cons nb ns)
  show ?case
  proof (cases "nb \<in> set (map fst asg)")
    case True
    with Cons [of n] show ?thesis by simp
  next
    case False
    note na = this
    show ?thesis
    proof (cases "overlaps cw (var, nb)")
      case None
      with na Cons [of n] show ?thesis by simp
    next
      case (Some s)
      note s = this
      show ?thesis
      proof (cases "map_of doms nb")
        case None
        then have "nb \<notin> set (map fst doms)" by (simp add: map_of_eq_None_iff)
        with None na s show ?thesis by (simp add: lookup_def)
      next
        case (Some dn)
        from overlaps_in_rangeD [OF rng s] len have "fst s < length word" by simp
        moreover from overlaps_in_rangeD [OF rng s] node_consistentD [OF nc Some]
        have "\<forall>w \<in> set dn. snd s < length w" by simp
        ultimately obtain n' where "count_loop (fst s) (snd s) word dn n = Inr n'"
          using count_loop_total [of dn "fst s" word "snd s" n] by blast
        with na s Some Cons [of n'] show ?thesis by (simp add: lookup_def)
      qed
    qed
  qed
qed

lemma order_loop_in_bounds:
  assumes nc: "node_consistent doms" and rng: "overlaps_in_range cw"
  shows "\<forall>w \<in> set ws. length w = var_length var \<Longrightarrow>
         order_loop cw doms asg var ws order \<noteq> Inl IndexError \<and>
         (set (neighbors cw var) \<subseteq> set (map fst doms) \<longrightarrow>
            (\<exists>r. order_loop cw doms asg var ws order = Inr r))"
proof (induction ws arbitrary: order)
  case Nil
  show ?case by simp
next
  case (Cons word ws)
  then have len: "length word = var_length var" and rest: "\<forall>w \<in> set ws. length w = var_length var"
    by simp_all
  note nb = neighbors_count_in_bounds [OF nc rng len, of asg "neighbors cw var" 0]
  show ?case
  proof (cases "word \<in> set (map snd asg)")
    case True
    with Cons.IH [OF rest, of order] show ?thesis by simp
  next
    case False
    show ?thesis
    proof (cases "neighbors_count cw doms asg var word (neighbors cw var) 0")
      case (Inl e)
      with nb False show ?thesis by auto
    next
      case (Inr n)
      with False Cons.IH [OF rest, of "AList.update word n order"] show ?thesis by simp
    qed
  qed
qed

lemma order_domain_values_in_bounds:
  assumes nc: "node_consistent doms" and rng: "overlaps_in_range cw"
  shows "order_domain_values cw doms var asg \<noteq> Inl IndexError \<and>
         (var \<in> set (map fst doms) \<and> set (neighbors cw var) \<subseteq> set (map fst doms) \<longrightarrow>
            (\<exists>vals. order_domain_values cw doms var asg = Inr vals))"
proof (cases "map_of doms var")
  case None
  then have "var \<notin> set (map fst doms)" by (simp add: map_of_eq_None_iff)
  with None show ?thesis by (simp add: order_domain_values_def lookup_def)
next
  case (Some dv)
  from node_consistentD [OF nc Some] have "\<forall>w \<in> set dv. length w = var_length var" by simp
  from order_loop_in_bounds [OF nc rng this, of asg "[]"] Some show ?thesis
    by (cases "order_loop cw doms asg var dv []") (auto simp: order_domain_values_def lookup_def)
qed

text \<open>
  C10. When every word of every domain and every assigned word has the length of its
  variable and the overlap table holds positions below the lengths of its two variables,
  no character access of \<^verbatim>\<open>revise\<close>, \<^verbatim>\<open>consistent\<close> or \<^verbatim>\<open>order_domain_values\<close> is out of
  range: none of the three raises \<^verbatim>\<open>IndexError\<close>. More than that, \<^verbatim>\<open>consistent\<close> always
  returns, \<^verbatim>\<open>revise\<close> returns when its two variables are keys of the store, and
  \<^verbatim>\<open>order_domain_values\<close> returns when the variable and its neighbors are.
\<close>

theorem overlap_accesses_in_bounds:
  "node_consistent doms \<and> assignment_fits asg \<and> overlaps_in_range cw \<longrightarrow>
     revise cw x y doms \<noteq> Inl IndexError \<and>
     consistent cw asg \<noteq> Inl IndexError \<and>
     order_domain_values cw doms var asg \<noteq> Inl IndexError \<and>
     (x \<in> set (map fst doms) \<and> y \<in> set (map fst doms) \<longrightarrow> (\<exists>r. revise cw x y doms = Inr r)) \<and>
     (\<exists>b. consistent cw asg = Inr b) \<and>
     (var \<in> set (map fst doms) \<and> set (neighbors cw var) \<subseteq> set (map fst doms) \<longrightarrow>
        (\<exists>vals. order_domain_values cw doms var asg = Inr vals))"
proof
  assume a: "node_consistent doms \<and> assignment_fits asg \<and> overlaps_in_range cw"
  then have nc: "node_consistent doms" and fits: "assignment_fits asg" and rng: "overlaps_in_range cw"
    by blast+
  from consistent_total [OF fits rng] obtain b where b: "consistent cw asg = Inr b" by blast
  from revise_in_bounds [OF nc rng] order_domain_values_in_bounds [OF nc rng, of var asg] b
  show "revise cw x y doms \<noteq> Inl IndexError \<and>
     consistent cw asg \<noteq> Inl IndexError \<and>
     order_domain_values cw doms var asg \<noteq> Inl IndexError \<and>
     (x \<in> set (map fst doms) \<and> y \<in> set (map fst doms) \<longrightarrow> (\<exists>r. revise cw x y doms = Inr r)) \<and>
     (\<exists>b. consistent cw asg = Inr b) \<and>
     (var \<in> set (map fst doms) \<and> set (neighbors cw var) \<subseteq> set (map fst doms) \<longrightarrow>
        (\<exists>vals. order_domain_values cw doms var asg = Inr vals))"
    by simp
qed


lemma cw2_in_range: "overlaps_in_range cw2"
  by (simp add: overlaps_in_range_def cw2_def)

theorem overlap_accesses_in_bounds_witness:
  "node_consistent [(v1, [''cat'', ''dog'']), (v2, [''cow'', ''cup''])] \<and>
   assignment_fits [(v1, ''cat'')] \<and> overlaps_in_range cw2 \<and>
   v1 \<in> set (map fst [(v1, [''cat'', ''dog'']), (v2, [''cow'', ''cup''])]) \<and>
   v2 \<in> set (map fst [(v1, [''cat'', ''dog'']), (v2, [''cow'', ''cup''])]) \<and>
   revise cw2 v1 v2 [(v1, [''cat'', ''dog'']), (v2, [''cow'', ''cup''])] \<noteq> Inl IndexError \<and>
   consistent cw2 [(v1, ''cat'')] \<noteq> Inl IndexError \<and>
   order_domain_values cw2 [(v1, [''cat'', ''dog'']), (v2, [''cow'', ''cup''])] v2 [(v1, ''cat'')]
     \<noteq> Inl IndexError \<and>
   (\<exists>r. revise cw2 v1 v2 [(v1, [''cat'', ''dog'']), (v2, [''cow'', ''cup''])] = Inr r) \<and>
   (\<exists>vals. order_domain_values cw2 [(v1, [''cat'', ''dog'']), (v2, [''cow'', ''cup''])] v2 [(v1, ''cat'')]
      = Inr vals)"
proof -
  let ?d = "[(v1, [''cat'', ''dog'']), (v2, [''cow'', ''cup''])]"
  have h: "node_consistent ?d \<and> assignment_fits [(v1, ''cat'')] \<and> overlaps_in_range cw2"
    by (simp add: node_consistent_def domain_of_def assignment_fits_def cw2_in_range)
  have k: "v1 \<in> set (map fst ?d) \<and> v2 \<in> set (map fst ?d)" by simp
  have n: "v2 \<in> set (map fst ?d) \<and> set (neighbors cw2 v2) \<subseteq> set (map fst ?d)" by simp
  from overlap_accesses_in_bounds [of ?d "[(v1, ''cat'')]" cw2 v1 v2 v2] h k n
  show ?thesis by blast
qed

subsection \<open>\<^verbatim>\<open>select_unassigned_variable\<close> returns an unassigned variable\<close>

lemma select_loop_inv:
  "set vars \<subseteq> set (map fst doms) \<Longrightarrow> select_inv doms asg lowest order \<Longrightarrow>
   \<exists>l' o'. select_loop cw doms asg vars lowest order = Inr (l', o') \<and> select_inv doms asg l' o' \<and>
     (o' = None \<longrightarrow> order = None \<and> (\<forall>v \<in> set vars. has_key asg v))"
proof (induction vars arbitrary: lowest order)
  case Nil
  then show ?case by simp
next
  case (Cons var vars)
  from Cons.prems have sub: "set vars \<subseteq> set (map fst doms)" and vk: "var \<in> set (map fst doms)"
    by simp_all
  show ?case
  proof (cases "has_key asg var")
    case True
    with Cons.IH [OF sub Cons.prems(2)] show ?thesis by simp
  next
    case False
    from vk obtain dv where dv: "map_of doms var = Some dv"
      by (cases "map_of doms var") (auto simp: map_of_eq_None_iff)
    let ?n = "length (neighbors cw var)"
    show ?thesis
    proof (cases "enat (length dv) < lowest")
      case True
      have "select_inv doms asg (enat (length dv)) (Some [(var, ?n)])"
        using vk False by (simp add: select_inv_def)
      from Cons.IH [OF sub this] False dv True show ?thesis
        by (auto simp: lookup_def)
    next
      case nl: False
      then have "lowest \<noteq> \<infinity>" by (cases lowest) auto
      with Cons.prems(2) obtain ord where ord: "order = Some ord" "ord \<noteq> []"
        "\<forall>v \<in> set (map fst ord). v \<in> set (map fst doms) \<and> \<not> has_key asg v"
        by (cases order) (auto simp: select_inv_def)
      show ?thesis
      proof (cases "enat (length dv) = lowest")
        case True
        have "select_inv doms asg lowest (Some (AList.update var ?n ord))"
          using ord vk False by (auto simp: select_inv_def update_keys)
        from Cons.IH [OF sub this] False dv nl True ord(1) show ?thesis
          by (auto simp: lookup_def)
      next
        case False
        from Cons.IH [OF sub Cons.prems(2)] \<open>\<not> has_key asg var\<close> dv nl False ord(1) show ?thesis
          by (auto simp: lookup_def)
      qed
    qed
  qed
qed

lemma sorted_keys_set [simp]: "set (sorted_keys order) = set (map fst order)"
  by (simp add: sorted_keys_def)

lemma sorted_keys_Nil [simp]: "sorted_keys order = [] \<longleftrightarrow> order = []"
proof -
  have "length (sorted_keys order) = length order" by (simp add: sorted_keys_def)
  then show ?thesis by (metis length_0_conv)
qed

lemma complete_loop_iff: "complete_loop asg vars \<longleftrightarrow> (\<forall>v \<in> set vars. has_key asg v)"
  by (induction vars) auto

lemma assignment_complete_iff:
  "assignment_complete doms asg \<longleftrightarrow> (\<forall>v \<in> set (map fst doms). has_key asg v)"
  by (simp add: assignment_complete_def complete_loop_iff)

lemma select_unassigned_variable_returns:
  assumes "\<not> assignment_complete doms asg"
  shows "\<exists>var. select_unassigned_variable cw doms asg = Inr var \<and>
           var \<in> set (map fst doms) \<and> \<not> has_key asg var"
proof -
  have "select_inv doms asg \<infinity> None" by (simp add: select_inv_def)
  from select_loop_inv [OF subset_refl this, of cw] obtain l' o' where
    r: "select_loop cw doms asg (map fst doms) \<infinity> None = Inr (l', o')"
    and i: "select_inv doms asg l' o'"
    and n: "o' = None \<longrightarrow> (\<forall>v \<in> set (map fst doms). has_key asg v)"
    by blast
  from n assms obtain ord where o: "o' = Some ord"
    by (cases o') (auto simp: assignment_complete_iff)
  with i have ne: "ord \<noteq> []" and
    k: "\<forall>v \<in> set (map fst ord). v \<in> set (map fst doms) \<and> \<not> has_key asg v"
    by (simp_all add: select_inv_def)
  from ne have len: "0 < length (sorted_keys ord)" by (cases "sorted_keys ord") simp_all
  then have "sorted_keys ord ! 0 \<in> set (sorted_keys ord)" by (rule nth_mem)
  then have "sorted_keys ord ! 0 \<in> set (map fst ord)" by simp
  with k have "sorted_keys ord ! 0 \<in> set (map fst doms) \<and> \<not> has_key asg (sorted_keys ord ! 0)"
    by blast
  moreover have "select_unassigned_variable cw doms asg = Inr (sorted_keys ord ! 0)"
    using r o len by (simp add: select_unassigned_variable_def getitem_def)
  ultimately show ?thesis by blast
qed

subsection \<open>What \<^verbatim>\<open>consistent\<close> checks\<close>






subsection \<open>The keys of the store\<close>

lemma revise_keys:
  "revise cw x y doms = Inr (revised, d1) \<Longrightarrow> map fst d1 = map fst doms"
proof (cases revised)
  case True
  assume "revise cw x y doms = Inr (revised, d1)"
  with True have "revise cw x y doms = Inr (True, d1)" by simp
  from revise_True_shape [OF this] obtain dx dx' where
    "map_of doms x = Some dx" "d1 = AList.update x dx' doms" by blast
  then have "x \<in> set (map fst doms)" and d: "d1 = AList.update x dx' doms"
    by (auto dest: map_of_SomeD intro: rev_image_eqI)
  then show ?thesis by (simp add: update_keys_present)
next
  case False
  assume "revise cw x y doms = Inr (revised, d1)"
  with False show ?thesis by (auto dest: revise_unchanged)
qed

lemma ac3_body_keys:
  "ac3_body cw x y doms = Inr (opt, d1) \<Longrightarrow> map fst d1 = map fst doms"
  unfolding ac3_body_def
  by (cases "revise cw x y doms") (auto split: if_splits sum.splits dest: revise_keys)

lemma ac3_loop_keys:
  "ac3_loop cw queue doms = Inr (b, doms') \<Longrightarrow> map fst doms' = map fst doms"
proof (induction cw queue doms rule: ac3_loop.induct)
  case (1 cw doms)
  then show ?case by simp
next
  case (2 cw x y queue doms)
  show ?case
  proof (cases "ac3_body cw x y doms")
    case (Inl e)
    with "2.prems" show ?thesis by simp
  next
    case (Inr r)
    obtain opt d1 where r: "r = (opt, d1)" by (cases r)
    from Inr r have k: "map fst d1 = map fst doms" by (auto dest: ac3_body_keys)
    show ?thesis
    proof (cases opt)
      case None
      with "2.prems" Inr r k show ?thesis by simp
    next
      case (Some new)
      with "2.prems" Inr r have "ac3_loop cw (queue @ new) d1 = Inr (b, doms')" by simp
      from "2.IH" [OF Inr r [symmetric] Some this] k show ?thesis by simp
    qed
  qed
qed

lemma ac3_keys: "ac3 cw arcs doms = Inr (b, doms') \<Longrightarrow> map fst doms' = map fst doms"
  unfolding ac3_def Let_def by (rule ac3_loop_keys)

lemma assignment_complete_keys:
  "map fst d' = map fst d \<Longrightarrow> assignment_complete d' a = assignment_complete d a"
  by (simp add: assignment_complete_def)

subsection \<open>The answer of the search\<close>

lemma pop_update:
  "\<not> has_key asg var \<Longrightarrow> pop var (AList.update var val asg) = Inr asg"
  by (simp add: pop_def has_key_def dom_update delete_update_same)

lemma branch_cases:
  assumes "branch recur cw var val doms asg = Inr (res, d2, a2)"
  shows "(consistent cw (AList.update var val asg) = Inr False \<and>
            pop var (AList.update var val asg) = Inr a2 \<and> res = None \<and> d2 = doms) \<or>
         (consistent cw (AList.update var val asg) = Inr True \<and>
            ac3 cw None doms = Inr (False, d2) \<and>
            pop var (AList.update var val asg) = Inr a2 \<and> res = None) \<or>
         (consistent cw (AList.update var val asg) = Inr True \<and>
            (\<exists>d1. ac3 cw None doms = Inr (True, d1) \<and>
               (\<exists>r. recur d1 (AList.update var val asg) = Inr (Some r, d2, a2) \<and> res = Some r))) \<or>
         (consistent cw (AList.update var val asg) = Inr True \<and>
            (\<exists>d1 aa. ac3 cw None doms = Inr (True, d1) \<and>
               recur d1 (AList.update var val asg) = Inr (None, d2, aa) \<and>
               pop var aa = Inr a2 \<and> res = None))"
proof (cases "consistent cw (AList.update var val asg)")
  case (Inl e)
  with assms show ?thesis by (simp add: branch_def)
next
  case (Inr ok)
  note c = this
  show ?thesis
  proof (cases ok)
    case False
    with assms c show ?thesis by (auto simp: branch_def split: sum.splits)
  next
    case True
    note ok = this
    show ?thesis
    proof (cases "ac3 cw None doms")
      case (Inl e)
      with assms c ok show ?thesis by (simp add: branch_def)
    next
      case (Inr p)
      obtain arc_ok d1 where p: "p = (arc_ok, d1)" by (cases p)
      show ?thesis
      proof (cases arc_ok)
        case False
        with assms c ok Inr p show ?thesis by (auto simp: branch_def split: sum.splits)
      next
        case True
        note aok = this
        show ?thesis
        proof (cases "recur d1 (AList.update var val asg)")
          case (Inl e)
          with assms c ok Inr p aok show ?thesis by (simp add: branch_def)
        next
          case rr: (Inr q)
          obtain resr dd aa where q: "q = (resr, dd, aa)" by (cases q)
          show ?thesis
          proof (cases resr)
            case None
            with assms c ok Inr p aok rr q show ?thesis
              by (auto simp: branch_def split: sum.splits)
          next
            case (Some r)
            with assms c ok Inr p aok rr q show ?thesis
              by (auto simp: branch_def)
          qed
        qed
      qed
    qed
  qed
qed

lemma good_searchD:
  "good_search cw recur \<Longrightarrow> recur d a = Inr (res, d2, a2) \<Longrightarrow>
   map fst d2 = map fst d \<and>
   (case res of
      None \<Rightarrow> a2 = a
    | Some r \<Rightarrow> r = a2 \<and> assignment_complete d r \<and>
        (if assignment_complete d a then r = a else consistent cw r = Inr True))"
  unfolding good_search_def by blast

lemma branch_good:
  assumes good: "good_search cw recur" and nk: "\<not> has_key asg var"
    and r: "branch recur cw var val doms asg = Inr (res, d2, a2)"
  shows "branch_post cw doms asg (res, d2, a2)"
proof -
  let ?a1 = "AList.update var val asg"
  note p = pop_update [OF nk, of val]
  from branch_cases [OF r] consider
    (inconsistent) "pop var ?a1 = Inr a2" "res = None" "d2 = doms"
  | (arc_failed) "ac3 cw None doms = Inr (False, d2)" "pop var ?a1 = Inr a2" "res = None"
  | (found) d1 r' where "consistent cw ?a1 = Inr True" "ac3 cw None doms = Inr (True, d1)"
      "recur d1 ?a1 = Inr (Some r', d2, a2)" "res = Some r'"
  | (failed) d1 aa where "ac3 cw None doms = Inr (True, d1)"
      "recur d1 ?a1 = Inr (None, d2, aa)" "pop var aa = Inr a2" "res = None"
    by blast
  then show ?thesis
  proof cases
    case inconsistent
    with p show ?thesis by (simp add: branch_post_def)
  next
    case arc_failed
    with p ac3_keys [OF arc_failed(1)] show ?thesis by (simp add: branch_post_def)
  next
    case found
    from ac3_keys [OF found(2)] have k1: "map fst d1 = map fst doms" .
    from good_searchD [OF good found(3)] have "map fst d2 = map fst d1 \<and> r' = a2 \<and>
      assignment_complete d1 r' \<and>
      (if assignment_complete d1 ?a1 then r' = ?a1 else consistent cw r' = Inr True)"
      by auto
    then have k2: "map fst d2 = map fst d1"
      and e: "r' = a2" and c: "assignment_complete d1 r'"
      and i: "if assignment_complete d1 ?a1 then r' = ?a1 else consistent cw r' = Inr True"
      by blast+
    from i found(1) have "consistent cw r' = Inr True" by (auto split: if_splits)
    moreover from c assignment_complete_keys [OF k1, of r'] have "assignment_complete doms r'" by simp
    ultimately show ?thesis using k1 k2 e found(4) by (simp add: branch_post_def)
  next
    case failed
    from ac3_keys [OF failed(1)] have k1: "map fst d1 = map fst doms" .
    from good_searchD [OF good failed(2)] have k2: "map fst d2 = map fst d1" and e: "aa = ?a1"
      by simp_all
    from failed(3) e p have "a2 = asg" by simp
    with k1 k2 failed(4) show ?thesis by (simp add: branch_post_def)
  qed
qed

lemma try_values_good:
  assumes good: "good_search cw recur" and nk: "\<not> has_key asg var"
  shows "try_values recur cw var vals doms asg = Inr (res, d2, a2) \<Longrightarrow>
         branch_post cw doms asg (res, d2, a2)"
proof (induction vals arbitrary: doms)
  case Nil
  then show ?case by (simp add: branch_post_def)
next
  case (Cons val vals)
  show ?case
  proof (cases "branch recur cw var val doms asg")
    case (Inl e)
    with Cons.prems show ?thesis by simp
  next
    case (Inr q)
    obtain resb d' a' where q: "q = (resb, d', a')" by (cases q)
    from branch_good [OF good nk Inr [unfolded q]] have post: "branch_post cw doms asg (resb, d', a')" .
    show ?thesis
    proof (cases resb)
      case (Some r)
      with Cons.prems Inr q post show ?thesis by simp
    next
      case None
      with post have k: "map fst d' = map fst doms" and a: "a' = asg" by (simp_all add: branch_post_def)
      from Cons.prems Inr q None a have "try_values recur cw var vals d' asg = Inr (res, d2, a2)"
        by simp
      from Cons.IH [OF this] have post': "branch_post cw d' asg (res, d2, a2)" .
      have "assignment_complete d' r = assignment_complete doms r" for r
        using k by (rule assignment_complete_keys)
      with post' k show ?thesis
        by (simp add: branch_post_def split: option.splits)
    qed
  qed
qed

lemma backtrack_good: "good_search cw (backtrack fuel cw)"
proof (induction fuel)
  case 0
  show ?case by (simp add: good_search_def)
next
  case (Suc fuel)
  show ?case
    unfolding good_search_def
  proof (intro allI impI)
    fix d a res d2 a2
    assume r: "backtrack (Suc fuel) cw d a = Inr (res, d2, a2)"
    show "map fst d2 = map fst d \<and>
        (case res of
           None \<Rightarrow> a2 = a
         | Some r \<Rightarrow> r = a2 \<and> assignment_complete d r \<and>
             (if assignment_complete d a then r = a else consistent cw r = Inr True))"
    proof (cases "assignment_complete d a")
      case True
      with r show ?thesis by auto
    next
      case False
      from select_unassigned_variable_returns [OF False, of cw] obtain var where
        s: "select_unassigned_variable cw d a = Inr var" and nk: "\<not> has_key a var"
        by blast
      from r False s obtain vals where
        t: "try_values (backtrack fuel cw) cw var vals d a = Inr (res, d2, a2)"
        by (auto split: sum.splits)
      from try_values_good [OF Suc nk t] False show ?thesis
        by (auto simp: branch_post_def split: option.splits)
    qed
  qed
qed


subsection \<open>The search returns\<close>

lemma node_consistent_update:
  assumes "node_consistent doms" and "\<forall>w \<in> set ws. length w = var_length x"
  shows "node_consistent (AList.update x ws doms)"
  unfolding node_consistent_def
proof (intro ballI)
  fix v w
  assume v: "v \<in> set (map fst (AList.update x ws doms))"
    and w: "w \<in> set (domain_of (AList.update x ws doms) v)"
  show "length w = var_length v"
  proof (cases "v = x")
    case True
    with w assms(2) show ?thesis by (simp add: domain_of_update)
  next
    case False
    with v have "v \<in> set (map fst doms)" by (simp add: dom_update)
    moreover from False w have "w \<in> set (domain_of doms v)" by (simp add: domain_of_update)
    ultimately show ?thesis using assms(1) unfolding node_consistent_def by blast
  qed
qed

lemma assignment_fits_update:
  assumes "assignment_fits asg" and "length val = var_length var"
  shows "assignment_fits (AList.update var val asg)"
  unfolding assignment_fits_def
proof (intro ballI)
  fix v
  assume v: "v \<in> set (map fst (AList.update var val asg))"
  show "case map_of (AList.update var val asg) v of None \<Rightarrow> True
        | Some w \<Rightarrow> length w = var_length v"
  proof (cases "v = var")
    case True
    with assms(2) show ?thesis by (simp add: update_conv')
  next
    case False
    with v have "v \<in> set (map fst asg)" by (simp add: dom_update)
    with assms(1) have "case map_of asg v of None \<Rightarrow> True | Some w \<Rightarrow> length w = var_length v"
      unfolding assignment_fits_def by blast
    with False show ?thesis by (simp add: update_conv')
  qed
qed

lemma revise_node_consistent:
  assumes nc: "node_consistent doms" and r: "revise cw x y doms = Inr (revised, d1)"
  shows "node_consistent d1"
proof (cases revised)
  case False
  with r have "d1 = doms" by (auto dest: revise_unchanged)
  with nc show ?thesis by simp
next
  case True
  with r have "revise cw x y doms = Inr (True, d1)" by simp
  from revise_True_shape [OF this] obtain dx dx' where
    dx: "map_of doms x = Some dx" and sub: "set dx' \<subseteq> set dx" and d1: "d1 = AList.update x dx' doms"
    by blast
  from node_consistentD [OF nc dx] sub have "\<forall>w \<in> set dx'. length w = var_length x" by blast
  from node_consistent_update [OF nc this] d1 show ?thesis by simp
qed

lemma ac3_loop_total:
  "overlaps_in_range cw \<Longrightarrow> node_consistent doms \<Longrightarrow> neighbors_closed cw (map fst doms) \<Longrightarrow>
   \<forall>(x, y) \<in> set queue. x \<in> set (map fst doms) \<and> y \<in> set (map fst doms) \<Longrightarrow>
   \<exists>b d'. ac3_loop cw queue doms = Inr (b, d') \<and> node_consistent d'"
proof (induction cw queue doms rule: ac3_loop.induct)
  case (1 cw doms)
  then show ?case by auto
next
  case (2 cw x y queue doms)
  from "2.prems"(4) have x: "x \<in> set (map fst doms)" and y: "y \<in> set (map fst doms)"
    and q: "\<forall>(x, y) \<in> set queue. x \<in> set (map fst doms) \<and> y \<in> set (map fst doms)"
    by simp_all
  from revise_in_bounds(2) [OF "2.prems"(2) "2.prems"(1) x y] obtain revised d1 where
    r: "revise cw x y doms = Inr (revised, d1)" by force
  from revise_keys [OF r] have k: "map fst d1 = map fst doms" .
  from revise_node_consistent [OF "2.prems"(2) r] have nc1: "node_consistent d1" .
  from x k obtain dx where dx: "map_of d1 x = Some dx"
    using key_lookup [of x d1] by auto
  show ?case
  proof (cases "revised \<and> dx = []")
    case True
    with r dx have "ac3_body cw x y doms = Inr (None, d1)" by (simp add: ac3_body_def lookup_def)
    with nc1 show ?thesis by auto
  next
    case False
    define new where "new = (if revised then map (\<lambda>neighbor. (neighbor, x)) (neighbors cw x) else [])"
    from False r dx have body: "ac3_body cw x y doms = Inr (Some new, d1)"
      by (auto simp: ac3_body_def lookup_def new_def)
    from "2.prems"(3) x have "set (neighbors cw x) \<subseteq> set (map fst doms)"
      unfolding neighbors_closed_def by blast
    with x have "\<forall>(a, b) \<in> set new. a \<in> set (map fst doms) \<and> b \<in> set (map fst doms)"
      by (auto simp: new_def)
    with q have q1: "\<forall>(a, b) \<in> set (queue @ new). a \<in> set (map fst d1) \<and> b \<in> set (map fst d1)"
      unfolding k by auto
    from "2.prems"(3) k have cl1: "neighbors_closed cw (map fst d1)" by simp
    from "2.IH" [OF body refl refl "2.prems"(1) nc1 cl1 q1] body show ?thesis by simp
  qed
qed

lemma ac3_total:
  assumes "overlaps_in_range cw" "node_consistent doms" "neighbors_closed cw (map fst doms)"
  shows "\<exists>b d'. ac3 cw None doms = Inr (b, d') \<and> node_consistent d'"
proof -
  have "\<forall>(x, y) \<in> set (initial_queue (map fst doms)).
          x \<in> set (map fst doms) \<and> y \<in> set (map fst doms)"
    unfolding initial_queue_set by blast
  from ac3_loop_total [OF assms this] show ?thesis by (simp add: ac3_def)
qed

lemma order_loop_keys:
  "order_loop cw doms asg var ws order = Inr r \<Longrightarrow> set (map fst r) \<subseteq> set ws \<union> set (map fst order)"
proof (induction ws arbitrary: order)
  case Nil
  then show ?case by auto
next
  case (Cons w ws)
  show ?case
  proof (cases "w \<in> set (map snd asg)")
    case True
    with Cons.prems have "order_loop cw doms asg var ws order = Inr r" by simp
    from Cons.IH [OF this] show ?thesis by auto
  next
    case False
    with Cons.prems obtain n where
      "order_loop cw doms asg var ws (AList.update w n order) = Inr r"
      by (auto split: sum.splits)
    from Cons.IH [OF this] show ?thesis by (auto simp: update_keys split: if_splits)
  qed
qed

lemma order_domain_values_subset:
  assumes "order_domain_values cw doms var asg = Inr vals" and "val \<in> set vals"
  shows "\<exists>dv. map_of doms var = Some dv \<and> val \<in> set dv"
proof -
  from assms(1) obtain dv order where dv: "map_of doms var = Some dv"
    and o: "order_loop cw doms asg var dv [] = Inr order" and v: "vals = sorted_keys order"
    by (auto simp: order_domain_values_def lookup_def split: option.splits sum.splits)
  from order_loop_keys [OF o] v assms(2) have "val \<in> set dv" by auto
  with dv show ?thesis by blast
qed

lemma unassigned_update:
  assumes "var \<in> set (map fst doms)" and "\<not> has_key asg var" and "map fst d1 = map fst doms"
  shows "length (unassigned d1 (AList.update var val asg)) < length (unassigned doms asg)"
proof -
  let ?Q = "\<lambda>v. \<not> has_key asg v" and ?P = "\<lambda>v. \<not> has_key (AList.update var val asg) v"
  have hk: "has_key (AList.update var val asg) v \<longleftrightarrow> v = var \<or> has_key asg v" for v
    by (auto simp: has_key_def dom_update)
  have "filter ?P (map fst doms) = filter ?P (filter ?Q (map fst doms))"
    by (auto simp: hk intro: filter_cong)
  moreover have "var \<in> set (filter ?Q (map fst doms))" using assms(1,2) by simp
  moreover have "\<not> ?P var" by (simp add: hk)
  ultimately have "length (filter ?P (map fst doms)) < length (filter ?Q (map fst doms))"
    using length_filter_less [of var "filter ?Q (map fst doms)" ?P] by simp
  then show ?thesis by (simp add: unassigned_def assms(3))
qed

lemma has_key_update: "has_key (AList.update var val asg) var"
  by (simp add: has_key_def dom_update)

lemma branch_total:
  assumes good: "good_search cw recur" and tot: "total_search (map fst doms) n recur"
    and rng: "overlaps_in_range cw" and cl: "neighbors_closed cw (map fst doms)"
    and nc: "node_consistent doms" and fits: "assignment_fits asg"
    and var: "var \<in> set (map fst doms)" and nk: "\<not> has_key asg var"
    and len: "length val = var_length var" and n: "length (unassigned doms asg) \<le> n"
  shows "\<exists>res d2 a2. branch recur cw var val doms asg = Inr (res, d2, a2) \<and> node_consistent d2"
proof -
  let ?a1 = "AList.update var val asg"
  from assignment_fits_update [OF fits len] have fits1: "assignment_fits ?a1" .
  from consistent_total [OF fits1 rng] obtain ok where c: "consistent cw ?a1 = Inr ok" by blast
  note p = pop_update [OF nk, of val]
  show ?thesis
  proof (cases ok)
    case False
    with c p nc show ?thesis by (simp add: branch_def)
  next
    case True
    note ok = this
    from ac3_total [OF rng nc cl] obtain arc_ok d1 where a: "ac3 cw None doms = Inr (arc_ok, d1)"
      and nc1: "node_consistent d1" by blast
    from ac3_keys [OF a] have k1: "map fst d1 = map fst doms" .
    show ?thesis
    proof (cases arc_ok)
      case False
      with c ok a p nc1 show ?thesis by (simp add: branch_def)
    next
      case True
      from unassigned_update [OF var nk k1, of val] n have "length (unassigned d1 ?a1) < n" by simp
      with tot nc1 k1 fits1 obtain resr d2 aa where r: "recur d1 ?a1 = Inr (resr, d2, aa)"
        and nc2: "node_consistent d2"
        unfolding total_search_def by blast
      show ?thesis
      proof (cases resr)
        case (Some r')
        with c ok a True r nc2 show ?thesis by (simp add: branch_def)
      next
        case None
        with good_searchD [OF good r] have "aa = ?a1" by simp
        with c ok a True r None p nc2 show ?thesis by (simp add: branch_def)
      qed
    qed
  qed
qed

lemma try_values_total:
  assumes good: "good_search cw recur" and rng: "overlaps_in_range cw"
    and fits: "assignment_fits asg" and nk: "\<not> has_key asg var"
  shows "total_search (map fst doms) n recur \<Longrightarrow> neighbors_closed cw (map fst doms) \<Longrightarrow>
         node_consistent doms \<Longrightarrow> var \<in> set (map fst doms) \<Longrightarrow>
         \<forall>val \<in> set vals. length val = var_length var \<Longrightarrow>
         length (unassigned doms asg) \<le> n \<Longrightarrow>
         \<exists>res d2 a2. try_values recur cw var vals doms asg = Inr (res, d2, a2) \<and> node_consistent d2"
proof (induction vals arbitrary: doms)
  case Nil
  then show ?case by simp
next
  case (Cons val vals)
  from Cons.prems(5) have len: "length val = var_length var"
    and rest: "\<forall>val \<in> set vals. length val = var_length var" by simp_all
  from branch_total [OF good Cons.prems(1) rng Cons.prems(2,3) fits Cons.prems(4) nk len Cons.prems(6)]
  obtain resb d' a' where b: "branch recur cw var val doms asg = Inr (resb, d', a')"
    and nc': "node_consistent d'" by blast
  show ?case
  proof (cases resb)
    case (Some r)
    with b nc' show ?thesis by simp
  next
    case None
    from branch_good [OF good nk b] None have k: "map fst d' = map fst doms" and a: "a' = asg"
      by (simp_all add: branch_post_def)
    have u: "unassigned d' asg = unassigned doms asg" by (simp add: unassigned_def k)
    from Cons.IH [of d'] Cons.prems(1,2,4,6) nc' rest k u
    obtain res d2 a2 where "try_values recur cw var vals d' asg = Inr (res, d2, a2)"
      and "node_consistent d2" by auto
    with b None a show ?thesis by simp
  qed
qed

lemma backtrack_total:
  assumes rng: "overlaps_in_range cw" and cl: "neighbors_closed cw keys"
  shows "total_search keys fuel (backtrack fuel cw)"
proof (induction fuel)
  case 0
  show ?case by (simp add: total_search_def)
next
  case (Suc fuel)
  show ?case
    unfolding total_search_def
  proof (intro allI impI, elim conjE)
    fix d a
    assume nc: "node_consistent d" and k: "map fst d = keys" and fits: "assignment_fits a"
      and n: "length (unassigned d a) < Suc fuel"
    show "\<exists>res d2 a2. backtrack (Suc fuel) cw d a = Inr (res, d2, a2) \<and> node_consistent d2"
    proof (cases "assignment_complete d a")
      case True
      with nc show ?thesis by simp
    next
      case False
      from select_unassigned_variable_returns [OF False, of cw] obtain var where
        s: "select_unassigned_variable cw d a = Inr var" and var: "var \<in> set (map fst d)"
        and nk: "\<not> has_key a var"
        by blast
      from cl k var have "set (neighbors cw var) \<subseteq> set (map fst d)"
        unfolding neighbors_closed_def by blast
      with order_domain_values_in_bounds [OF nc rng, of var a] var obtain vals where
        o: "order_domain_values cw d var a = Inr vals" by blast
      have lens: "\<forall>val \<in> set vals. length val = var_length var"
        using order_domain_values_subset [OF o] node_consistentD [OF nc] by blast
      from Suc k have tot: "total_search (map fst d) fuel (backtrack fuel cw)" by simp
      from cl k have cl': "neighbors_closed cw (map fst d)" by simp
      from n have n': "length (unassigned d a) \<le> fuel" by simp
      from try_values_total [OF backtrack_good rng fits nk tot cl' nc var lens n']
      obtain res d2 a2 where "try_values (backtrack fuel cw) cw var vals d a = Inr (res, d2, a2)"
        and "node_consistent d2" by blast
      with False s o show ?thesis by simp
    qed
  qed
qed


subsection \<open>The search on an arc consistent store\<close>




subsection \<open>\<^verbatim>\<open>solve\<close>\<close>






lemma backtrack_returns:
  assumes "overlaps_in_range cw" "neighbors_closed cw (map fst doms)" "node_consistent doms"
    "assignment_fits asg" "length (unassigned doms asg) < fuel"
  shows "\<exists>res doms' asg'. backtrack fuel cw doms asg = Inr (res, doms', asg')"
  using backtrack_total [OF assms(1,2), of fuel] assms(3,4,5)
  unfolding total_search_def by blast



subsection \<open>Runs of the search on the small puzzles\<close>

lemmas search_defs =
  assignment_complete_def select_unassigned_variable_def order_domain_values_def
  sorted_keys_def branch_def consistent_def pop_def has_key_def lookup_def getitem_def
  ac3_def initial_queue_def ac3_body_def revise_def check_def difference_def Let_def

lemma search_finds:
  "backtrack (Suc (Suc (Suc 0))) cw2 [(v1, [''cat'']), (v2, [''cow'', ''cup''])] []
     = Inr (Some [(v1, ''cat''), (v2, ''cow'')], [(v1, [''cat'']), (v2, [''cow'', ''cup''])],
            [(v1, ''cat''), (v2, ''cow'')])"
  by (simp add: search_defs)

lemma search_fails:
  "backtrack (Suc (Suc (Suc 0))) cw2 [(v1, [''cat'']), (v2, [''dog''])] []
     = Inr (None, [(v1, []), (v2, [''dog''])], [])"
  by (simp add: search_defs)







subsection \<open>\<^verbatim>\<open>backtrack\<close>: a failure leaves the assignment as it was\<close>

text \<open>
  C9. For every store and every assignment, when \<^verbatim>\<open>backtrack\<close> returns \<^verbatim>\<open>None\<close> the
  assignment dictionary is the one it was called with, entry for entry and in the same
  order: every placement made inside the call has been popped. And the call does return:
  with words of the right lengths in the store and in the assignment, an overlap table
  in range, neighbors among the variables of the store, and a recursion depth above the
  number of unassigned variables, \<^verbatim>\<open>backtrack\<close> raises nothing.
\<close>

theorem backtrack_failure_restores_assignment:
  "(\<forall>doms' asg'. backtrack fuel cw doms asg = Inr (None, doms', asg') \<longrightarrow> asg' = asg) \<and>
   (overlaps_in_range cw \<and> neighbors_closed cw (map fst doms) \<and> node_consistent doms \<and>
    assignment_fits asg \<and> length (unassigned doms asg) < fuel \<longrightarrow>
      (\<exists>res doms' asg'. backtrack fuel cw doms asg = Inr (res, doms', asg')))"
proof (rule conjI)
  show "\<forall>doms' asg'. backtrack fuel cw doms asg = Inr (None, doms', asg') \<longrightarrow> asg' = asg"
  proof (intro allI impI)
    fix doms' asg'
    assume "backtrack fuel cw doms asg = Inr (None, doms', asg')"
    from good_searchD [OF backtrack_good this] show "asg' = asg" by simp
  qed
next
  show "overlaps_in_range cw \<and> neighbors_closed cw (map fst doms) \<and> node_consistent doms \<and>
    assignment_fits asg \<and> length (unassigned doms asg) < fuel \<longrightarrow>
      (\<exists>res doms' asg'. backtrack fuel cw doms asg = Inr (res, doms', asg'))"
    using backtrack_returns by blast
qed

theorem backtrack_failure_restores_assignment_witness:
  "overlaps_in_range cw2 \<and> neighbors_closed cw2 (map fst [(v1, [''cat'']), (v2, [''dog''])]) \<and>
   node_consistent [(v1, [''cat'']), (v2, [''dog''])] \<and> assignment_fits [] \<and>
   length (unassigned [(v1, [''cat'']), (v2, [''dog''])] []) < Suc (Suc (Suc 0)) \<and>
   (\<exists>res doms' asg'. backtrack (Suc (Suc (Suc 0))) cw2 [(v1, [''cat'']), (v2, [''dog''])] []
      = Inr (res, doms', asg')) \<and>
   backtrack (Suc (Suc (Suc 0))) cw2 [(v1, [''cat'']), (v2, [''dog''])] []
     = Inr (None, [(v1, []), (v2, [''dog''])], [])"
proof -
  let ?d = "[(v1, [''cat'']), (v2, [''dog''])]"
  note T = backtrack_failure_restores_assignment [of "Suc (Suc (Suc 0))" cw2 ?d "[]"]
  have h: "overlaps_in_range cw2 \<and> neighbors_closed cw2 (map fst ?d) \<and> node_consistent ?d \<and>
    assignment_fits [] \<and> length (unassigned ?d []) < Suc (Suc (Suc 0))"
    using cw2_in_range cw2_closed
    by (simp add: node_consistent_def domain_of_def assignment_fits_def unassigned_def has_key_def)
  from T have "overlaps_in_range cw2 \<and> neighbors_closed cw2 (map fst ?d) \<and> node_consistent ?d \<and>
    assignment_fits [] \<and> length (unassigned ?d []) < Suc (Suc (Suc 0)) \<longrightarrow>
      (\<exists>res doms' asg'. backtrack (Suc (Suc (Suc 0))) cw2 ?d [] = Inr (res, doms', asg'))"
    by (rule conjunct2)
  from this h have t: "\<exists>res doms' asg'. backtrack (Suc (Suc (Suc 0))) cw2 ?d [] = Inr (res, doms', asg')"
    by (rule mp)
  from h t search_fails show ?thesis by (intro conjI) blast+
qed

subsection \<open>\<^verbatim>\<open>backtrack\<close> and \<^verbatim>\<open>solve\<close>: the assignment that is returned\<close>




subsection \<open>\<^verbatim>\<open>backtrack\<close>: the store after an abandoned branch\<close>





end
